theory Spec2Isabelle
  imports Complex_Main "HOL-Library.Monad_Syntax" "HOL-Library.Multiset" "HOL-Library.Stream"
begin

section \<open>Piece catalog\<close>

text \<open>
  The seven piece kinds are the keys of the dictionary \<open>PIECES\<close> of \<open>tetris.py\<close>, in the
  order the dictionary literal lists them (the strings 'I', 'J', 'L', 'O', 'S', 'T', 'Z').
\<close>

datatype kind = KI | KJ | KL | KO | KS | KT | KZ

definition all_kinds :: "kind list" where
  "all_kinds = [KI, KJ, KL, KO, KS, KT, KZ]"

fun PIECES :: "kind \<Rightarrow> (int \<times> int) list list" where
  "PIECES KI = [[(0,1), (1,1), (2,1), (3,1)],
                [(2,0), (2,1), (2,2), (2,3)],
                [(0,2), (1,2), (2,2), (3,2)],
                [(1,0), (1,1), (1,2), (1,3)]]"
| "PIECES KJ = [[(0,0), (0,1), (1,1), (2,1)],
                [(1,0), (2,0), (1,1), (1,2)],
                [(0,1), (1,1), (2,1), (2,2)],
                [(1,0), (1,1), (0,2), (1,2)]]"
| "PIECES KL = [[(2,0), (0,1), (1,1), (2,1)],
                [(1,0), (1,1), (1,2), (2,2)],
                [(0,1), (1,1), (2,1), (0,2)],
                [(0,0), (1,0), (1,1), (1,2)]]"
| "PIECES KO = [[(1,0), (2,0), (1,1), (2,1)],
                [(1,0), (2,0), (1,1), (2,1)],
                [(1,0), (2,0), (1,1), (2,1)],
                [(1,0), (2,0), (1,1), (2,1)]]"
| "PIECES KS = [[(1,0), (2,0), (0,1), (1,1)],
                [(1,0), (1,1), (2,1), (2,2)],
                [(1,1), (2,1), (0,2), (1,2)],
                [(0,0), (0,1), (1,1), (1,2)]]"
| "PIECES KT = [[(1,0), (0,1), (1,1), (2,1)],
                [(1,0), (1,1), (2,1), (1,2)],
                [(0,1), (1,1), (2,1), (1,2)],
                [(1,0), (0,1), (1,1), (1,2)]]"
| "PIECES KZ = [[(0,0), (1,0), (1,1), (2,1)],
                [(2,0), (1,1), (2,1), (1,2)],
                [(0,1), (1,1), (1,2), (2,2)],
                [(1,0), (0,1), (1,1), (0,2)]]"

text \<open>The two wall-kick dictionaries, keyed by (old rotation, new rotation).\<close>

definition KICKS_JLSTZ :: "int \<times> int \<Rightarrow> (int \<times> int) list option" where
  "KICKS_JLSTZ = map_of
    [((0,1), [(0,0), (-1,0), (-1,-1), (0,2), (-1,2)]),
     ((1,0), [(0,0), (1,0), (1,1), (0,-2), (1,-2)]),
     ((1,2), [(0,0), (1,0), (1,1), (0,-2), (1,-2)]),
     ((2,1), [(0,0), (-1,0), (-1,-1), (0,2), (-1,2)]),
     ((2,3), [(0,0), (1,0), (1,-1), (0,2), (1,2)]),
     ((3,2), [(0,0), (-1,0), (-1,1), (0,-2), (-1,-2)]),
     ((3,0), [(0,0), (-1,0), (-1,1), (0,-2), (-1,-2)]),
     ((0,3), [(0,0), (1,0), (1,-1), (0,2), (1,2)])]"

definition KICKS_I :: "int \<times> int \<Rightarrow> (int \<times> int) list option" where
  "KICKS_I = map_of
    [((0,1), [(0,0), (-2,0), (1,0), (-2,1), (1,-2)]),
     ((1,0), [(0,0), (2,0), (-1,0), (2,-1), (-1,2)]),
     ((1,2), [(0,0), (-1,0), (2,0), (-1,-2), (2,1)]),
     ((2,1), [(0,0), (1,0), (-2,0), (1,2), (-2,-1)]),
     ((2,3), [(0,0), (2,0), (-1,0), (2,-1), (-1,2)]),
     ((3,2), [(0,0), (-2,0), (1,0), (-2,1), (1,-2)]),
     ((3,0), [(0,0), (1,0), (-2,0), (1,2), (-2,-1)]),
     ((0,3), [(0,0), (-1,0), (2,0), (-1,-2), (2,1)])]"

definition GRID_W :: int where "GRID_W = 10"
definition GRID_H :: int where "GRID_H = 20"

section \<open>Python list indexing\<close>

text \<open>
  Reading \<open>xs[i]\<close> and writing \<open>xs[i] = v\<close> in Python accept an index from
  \<open>-len(xs)\<close> to \<open>len(xs) - 1\<close>, a negative one counting from the end, and raise
  IndexError outside that range. The functions of this theory return an option; \<open>None\<close>
  stands for the IndexError that leaves the Python function.
\<close>

definition py_nth :: "'a list \<Rightarrow> int \<Rightarrow> 'a option" where
  "py_nth xs i =
     (let n = int (length xs); j = (if i < 0 then n + i else i)
      in if 0 \<le> j \<and> j < n then Some (xs ! nat j) else None)"

definition py_set :: "'a list \<Rightarrow> int \<Rightarrow> 'a \<Rightarrow> 'a list option" where
  "py_set xs i v =
     (let n = int (length xs); j = (if i < 0 then n + i else i)
      in if 0 \<le> j \<and> j < n then Some (xs[nat j := v]) else None)"

section \<open>Piece\<close>

text \<open>
  A piece carries its kind, rotation and position. The attribute \<open>blocks\<close> of the
  Python class is the table entry \<open>PIECES[kind]\<close>, set once by the constructor and never
  assigned again, so the model reads the table through the kind.
\<close>

record piece =
  kind :: kind
  rot :: int
  x :: int
  y :: int

definition Piece :: "kind \<Rightarrow> piece" where
  "Piece k = \<lparr>kind = k, rot = 0, x = (if k \<noteq> KI then 3 else 3), y = 0\<rparr>"

text \<open>
  \<open>cells(x=None, y=None, rot=None)\<close>: an argument left out is \<open>None\<close> and is replaced by the
  piece's own value.
\<close>

definition cells :: "piece \<Rightarrow> int option \<Rightarrow> int option \<Rightarrow> int option \<Rightarrow> (int \<times> int) list option" where
  "cells p xo yo ro =
     (let px = (case xo of None \<Rightarrow> x p | Some v \<Rightarrow> v);
          py = (case yo of None \<Rightarrow> y p | Some v \<Rightarrow> v);
          pr = (case ro of None \<Rightarrow> rot p | Some v \<Rightarrow> v)
      in map_option (map (\<lambda>(cx, cy). (px + cx, py + cy))) (py_nth (PIECES (kind p)) pr))"

section \<open>Board\<close>

type_synonym grid = "kind option list list"

record board =
  w :: int
  h :: int
  grid :: grid

definition Board :: "int \<Rightarrow> int \<Rightarrow> board" where
  "Board bw bh = \<lparr>w = bw, h = bh, grid = replicate (nat bh) (replicate (nat bw) None)\<rparr>"

definition inside :: "board \<Rightarrow> int \<Rightarrow> int \<Rightarrow> bool" where
  "inside b cx cy \<longleftrightarrow> 0 \<le> cx \<and> cx < w b \<and> 0 \<le> cy \<and> cy < h b"

text \<open>\<open>grid[y][x]\<close>, row first.\<close>

definition grid_at :: "grid \<Rightarrow> int \<Rightarrow> int \<Rightarrow> kind option option" where
  "grid_at g cy cx = py_nth g cy \<bind> (\<lambda>row. py_nth row cx)"

fun collides :: "board \<Rightarrow> (int \<times> int) list \<Rightarrow> bool option" where
  "collides b [] = Some False"
| "collides b ((cx, cy) # cs) =
     (if cx < 0 \<or> cx \<ge> w b \<or> cy \<ge> h b then Some True
      else if cy \<ge> 0 then
        (case grid_at (grid b) cy cx of
           None \<Rightarrow> None
         | Some c \<Rightarrow> if c \<noteq> None then Some True else collides b cs)
      else collides b cs)"

text \<open>The first loop of \<open>lock\<close>: write the kind into the cells with \<open>0 <= y < h\<close>.\<close>

fun lock_cells :: "int \<Rightarrow> kind \<Rightarrow> grid \<Rightarrow> (int \<times> int) list \<Rightarrow> grid option" where
  "lock_cells bh k g [] = Some g"
| "lock_cells bh k g ((cx, cy) # cs) =
     (if 0 \<le> cy \<and> cy < bh then
        (case py_nth g cy of
           None \<Rightarrow> None
         | Some row \<Rightarrow>
             (case py_set row cx (Some k) of
                None \<Rightarrow> None
              | Some row' \<Rightarrow>
                  (case py_set g cy row' of
                     None \<Rightarrow> None
                   | Some g' \<Rightarrow> lock_cells bh k g' cs)))
      else lock_cells bh k g cs)"

definition is_full :: "kind option list \<Rightarrow> bool" where
  "is_full row \<longleftrightarrow> list_all (\<lambda>c. c \<noteq> None) row"

text \<open>\<open>full = [i for i, row in enumerate(self.grid) if all(c is not None for c in row)]\<close>\<close>

definition full_rows :: "grid \<Rightarrow> nat list" where
  "full_rows g = filter (\<lambda>i. is_full (g ! i)) [0..<length g]"

text \<open>
  The second loop of \<open>lock\<close>: for each index of \<open>full\<close>, in order, delete that row and
  insert an empty row at index 0. Every index of \<open>full\<close> is below \<open>len(self.grid)\<close>, which
  a deletion followed by an insertion keeps, so \<open>del\<close> does not raise.
\<close>

fun clear_rows :: "int \<Rightarrow> nat list \<Rightarrow> grid \<Rightarrow> grid" where
  "clear_rows bw [] g = g"
| "clear_rows bw (i # is) g =
     clear_rows bw is (replicate (nat bw) None # (take i g @ drop (Suc i) g))"

definition lock :: "board \<Rightarrow> piece \<Rightarrow> (board \<times> int) option" where
  "lock b p =
     (case cells p None None None of
        None \<Rightarrow> None
      | Some cs \<Rightarrow>
          (case lock_cells (h b) (kind p) (grid b) cs of
             None \<Rightarrow> None
           | Some g \<Rightarrow>
               (let full = full_rows g;
                    cleared = int (length full)
                in Some (b\<lparr>grid := clear_rows (w b) full g\<rparr>, cleared))))"

text \<open>
  \<open>any(self.grid[y][x] is not None for y in range(0,2))\<close>: the generator is consumed
  only up to the first true element.
\<close>

fun any_occupied :: "grid \<Rightarrow> int \<Rightarrow> int list \<Rightarrow> bool option" where
  "any_occupied g cx [] = Some False"
| "any_occupied g cx (cy # cys) =
     (case grid_at g cy cx of
        None \<Rightarrow> None
      | Some c \<Rightarrow> if c \<noteq> None then Some True else any_occupied g cx cys)"

fun top_out_cols :: "grid \<Rightarrow> int list \<Rightarrow> bool option" where
  "top_out_cols g [] = Some False"
| "top_out_cols g (cx # cxs) =
     (case grid_at g 0 cx of
        None \<Rightarrow> None
      | Some c \<Rightarrow>
          if c \<noteq> None then
            (case any_occupied g cx [0, 1] of
               None \<Rightarrow> None
             | Some a \<Rightarrow> if a then Some True else top_out_cols g cxs)
          else top_out_cols g cxs)"

definition top_out :: "board \<Rightarrow> bool option" where
  "top_out b = top_out_cols (grid b) (map int [0..<nat (w b)])"

section \<open>Random bag\<close>

text \<open>
  \<open>bag_generator\<close> is a Python generator: \<open>pieces = list(PIECES.keys())\<close>, then for ever
  \<open>random.shuffle(pieces)\<close> followed by \<open>for p in pieces: yield p\<close>. The generator object
  is the lazy sequence of the kinds it yields, a stream: \<open>next\<close> returns its head and leaves
  its tail. \<open>random.shuffle\<close> belongs to the Python library and is a parameter here: a
  function from the state of the random number generator and the list to the shuffled list
  and the next state. \<open>rest\<close> is what the running \<open>for\<close> loop has still to yield; when it is
  empty the next draw shuffles first.
\<close>

primcorec bag_loop ::
  "('r \<Rightarrow> kind list \<Rightarrow> kind list \<times> 'r) \<Rightarrow> 'r \<Rightarrow> kind list \<Rightarrow> kind list \<Rightarrow> kind stream" where
  "shd (bag_loop shuffle r pieces rest) =
     (case rest of p # ps \<Rightarrow> p | [] \<Rightarrow> hd (fst (shuffle r pieces)))"
| "stl (bag_loop shuffle r pieces rest) =
     (case rest of
        p # ps \<Rightarrow> bag_loop shuffle r pieces ps
      | [] \<Rightarrow> bag_loop shuffle (snd (shuffle r pieces)) (fst (shuffle r pieces))
                (tl (fst (shuffle r pieces))))"

definition bag_generator :: "('r \<Rightarrow> kind list \<Rightarrow> kind list \<times> 'r) \<Rightarrow> 'r \<Rightarrow> kind stream" where
  "bag_generator shuffle r = bag_loop shuffle r all_kinds []"

section \<open>Game\<close>

record game =
  board :: board
  bag :: "kind stream"
  next_queue :: "kind list"
  current :: piece
  hold :: "kind option"
  hold_used :: bool
  score :: int
  level :: int
  lines :: int
  drop_cooldown :: real
  gravity_timer :: real
  game_over :: bool
  paused :: bool

text \<open>
  The two nested loops of \<open>spawn_new\<close>, \<open>for dy in (0, -1, 1)\<close> around
  \<open>for dx in (0, -1, 1)\<close>. The result is \<open>Some (Some p')\<close> when a probe is accepted (the
  \<open>return\<close> inside the loops), \<open>Some None\<close> when the loop runs to its end.
\<close>

fun nudge_dx :: "board \<Rightarrow> piece \<Rightarrow> int \<Rightarrow> int list \<Rightarrow> piece option option" where
  "nudge_dx b p dy [] = Some None"
| "nudge_dx b p dy (dx # dxs) =
     (case cells p (Some (x p + dx)) (Some (y p + dy)) None \<bind> collides b of
        None \<Rightarrow> None
      | Some c \<Rightarrow>
          if \<not> c then Some (Some (p\<lparr>x := x p + dx, y := y p + dy\<rparr>))
          else nudge_dx b p dy dxs)"

fun nudge_dy :: "board \<Rightarrow> piece \<Rightarrow> int list \<Rightarrow> piece option option" where
  "nudge_dy b p [] = Some None"
| "nudge_dy b p (dy # dys) =
     (case nudge_dx b p dy [0, -1, 1] of
        None \<Rightarrow> None
      | Some (Some p') \<Rightarrow> Some (Some p')
      | Some None \<Rightarrow> nudge_dy b p dys)"

definition spawn_new :: "game \<Rightarrow> game option" where
  "spawn_new s =
     (let (k, q, g) = (case next_queue s of
                         k # q \<Rightarrow> (k, q, bag s)
                       | [] \<Rightarrow> (shd (bag s), [], stl (bag s)));
          s1 = s\<lparr>current := Piece k\<rparr>;
          s2 = s1\<lparr>next_queue := q @ [shd g], bag := stl g\<rparr>;
          s3 = s2\<lparr>hold_used := False\<rparr>
      in case cells (current s3) None None None \<bind> collides (board s3) of
           None \<Rightarrow> None
         | Some c \<Rightarrow>
             if c then
               (case nudge_dy (board s3) (current s3) [0, -1, 1] of
                  None \<Rightarrow> None
                | Some (Some p') \<Rightarrow> Some (s3\<lparr>current := p'\<rparr>)
                | Some None \<Rightarrow> Some (s3\<lparr>game_over := True\<rparr>))
             else Some s3)"

definition try_move :: "game \<Rightarrow> int \<Rightarrow> int \<Rightarrow> (bool \<times> game) option" where
  "try_move s dx dy =
     (if game_over s \<or> paused s then Some (False, s)
      else
        let nx = x (current s) + dx; ny = y (current s) + dy
        in case cells (current s) (Some nx) (Some ny) None \<bind> collides (board s) of
             None \<Rightarrow> None
           | Some c \<Rightarrow>
               if \<not> c then Some (True, s\<lparr>current := (current s)\<lparr>x := nx, y := ny\<rparr>\<rparr>)
               else Some (False, s))"

text \<open>The loop \<open>for dx, dy in candidates\<close> of \<open>rotate\<close>; falling out of it changes nothing.\<close>

fun rotate_loop :: "game \<Rightarrow> int \<Rightarrow> (int \<times> int) list \<Rightarrow> game option" where
  "rotate_loop s new_rot [] = Some s"
| "rotate_loop s new_rot ((dx, dy) # candidates) =
     (case cells (current s) (Some (x (current s) + dx)) (Some (y (current s) + dy)) (Some new_rot)
             \<bind> collides (board s) of
        None \<Rightarrow> None
      | Some c \<Rightarrow>
          if \<not> c then
            Some (s\<lparr>current := (current s)\<lparr>rot := new_rot, x := x (current s) + dx,
                                           y := y (current s) + dy\<rparr>\<rparr>)
          else rotate_loop s new_rot candidates)"

definition rotate :: "game \<Rightarrow> int \<Rightarrow> game option" where
  "rotate s dir =
     (if game_over s \<or> paused s then Some s
      else
        let old_rot = rot (current s);
            new_rot = (old_rot + (if dir > 0 then 1 else -1)) mod 4;
            kicks = (if kind (current s) = KI then KICKS_I else KICKS_JLSTZ);
            key = (old_rot, new_rot);
            candidates = (case kicks key of None \<Rightarrow> [(0, 0)] | Some c \<Rightarrow> c)
        in rotate_loop s new_rot candidates)"

definition hold_piece :: "game \<Rightarrow> game option" where
  "hold_piece s =
     (if game_over s \<or> paused s \<or> hold_used s then Some s
      else
        let s1 = s\<lparr>hold_used := True\<rparr>
        in case hold s1 of
             None \<Rightarrow> spawn_new (s1\<lparr>hold := Some (kind (current s1))\<rparr>)
           | Some held \<Rightarrow>
               let s2 = s1\<lparr>hold := Some (kind (current s1)), current := Piece held\<rparr>;
                   s3 = s2\<lparr>current := (current s2)\<lparr>x := 3, y := 0, rot := 0\<rparr>\<rparr>
               in case cells (current s3) None None None \<bind> collides (board s3) of
                    None \<Rightarrow> None
                  | Some c \<Rightarrow> if c then Some (s3\<lparr>game_over := True\<rparr>) else Some s3)"

definition scores :: "int \<Rightarrow> int option" where
  "scores = map_of [(1, 100), (2, 300), (3, 500), (4, 800)]"

definition lock_and_clear :: "game \<Rightarrow> game option" where
  "lock_and_clear s =
     (case lock (board s) (current s) of
        None \<Rightarrow> None
      | Some (b, cleared) \<Rightarrow>
          let s1 = s\<lparr>board := b\<rparr>;
              s2 = (if cleared \<noteq> 0 then
                      let s' = s1\<lparr>score := score s1 +
                                  (case scores cleared of None \<Rightarrow> 0 | Some v \<Rightarrow> v) * level s1\<rparr>;
                          s'' = s'\<lparr>lines := lines s' + cleared\<rparr>;
                          new_level = 1 + lines s'' div 10
                      in if new_level \<noteq> level s'' then s''\<lparr>level := new_level\<rparr> else s''
                    else s1)
          in case top_out (board s2) of
               None \<Rightarrow> None
             | Some t \<Rightarrow> if t then Some (s2\<lparr>game_over := True\<rparr>) else spawn_new s2)"

definition soft_drop :: "game \<Rightarrow> game option" where
  "soft_drop s =
     (case try_move s 0 1 of
        None \<Rightarrow> None
      | Some (moved, s1) \<Rightarrow>
          if \<not> moved then lock_and_clear s1 else Some (s1\<lparr>score := score s1 + 1\<rparr>))"

text \<open>
  The timers are Python floats. A float is modelled as the real number it stands for, and
  every float operation as the exact operation followed by the rounding \<open>rnd\<close> to the
  nearest float, which is a parameter: a literal \<open>0.55\<close> is \<open>rnd 0.55\<close>, the product of
  the integer \<open>level - 1\<close> and a float is the rounded product of the integer, converted,
  and the float, and \<open>+=\<close> is the rounded sum. Comparisons and \<open>max\<close> are exact. The
  literals \<open>0.5\<close>, \<open>0.0\<close> and \<open>0\<close> are floats as they stand.
\<close>

definition fall_speed :: "(real \<Rightarrow> real) \<Rightarrow> game \<Rightarrow> real" where
  "fall_speed rnd s =
     max (rnd 0.10) (rnd (rnd 0.55 - rnd (rnd (real_of_int (level s - 1)) * rnd 0.05)))"

text \<open>
  \<open>tick(dt, keys)\<close>; \<open>keys\<close> is not used.
\<close>

definition tick :: "(real \<Rightarrow> real) \<Rightarrow> game \<Rightarrow> real \<Rightarrow> game option" where
  "tick rnd s dt =
     (if game_over s \<or> paused s then Some s
      else
        let s1 = s\<lparr>gravity_timer := rnd (gravity_timer s + dt)\<rparr>
        in if gravity_timer s1 \<ge> fall_speed rnd s1 then
             (let s2 = s1\<lparr>gravity_timer := 0\<rparr>
              in case try_move s2 0 1 of
                   None \<Rightarrow> None
                 | Some (moved, s3) \<Rightarrow> if \<not> moved then lock_and_clear s3 else Some s3)
           else Some s1)"

text \<open>
  \<open>Game.__init__\<close>. The generator \<open>bag_generator()\<close> it creates is the argument: five draws
  fill the queue, a sixth makes the first \<open>current\<close>, then \<open>spawn_new\<close> is called.
\<close>

definition Game :: "kind stream \<Rightarrow> game option" where
  "Game g0 =
     (let q = stake 5 g0; g1 = sdrop 5 g0;
          cur = Piece (shd g1); g2 = stl g1
      in spawn_new
           \<lparr>board = Board GRID_W GRID_H, bag = g2, next_queue = q, current = cur,
            hold = None, hold_used = False, score = 0, level = 1, lines = 0,
            drop_cooldown = 0.5, gravity_timer = 0.0, game_over = False, paused = False\<rparr>)"

section \<open>Facts about cells and collisions\<close>

lemma py_nth_in_range: "0 \<le> i \<Longrightarrow> nat i < length xs \<Longrightarrow> py_nth xs i = Some (xs ! nat i)"
  by (auto simp: py_nth_def Let_def)

lemma py_set_in_range: "0 \<le> i \<Longrightarrow> nat i < length xs \<Longrightarrow> py_set xs i v = Some (xs[nat i := v])"
  by (auto simp: py_set_def Let_def)

lemma py_nth_mem: "py_nth xs i = Some v \<Longrightarrow> v \<in> set xs"
  by (auto simp: py_nth_def Let_def split: if_splits)

lemma PIECES_four: "blk \<in> set (PIECES k) \<Longrightarrow> length blk = 4"
  by (cases k) auto

lemma PIECES_nonneg: "blk \<in> set (PIECES k) \<Longrightarrow> (cx, cy) \<in> set blk \<Longrightarrow> 0 \<le> cx \<and> 0 \<le> cy"
  by (cases k) auto

lemma cells_length: "cells p xo yo ro = Some cs \<Longrightarrow> length cs = 4"
  by (auto simp: cells_def Let_def dest!: py_nth_mem PIECES_four)

lemma cells_below:
  assumes "cells p xo (Some ny) ro = Some cs" and "(cx, cy) \<in> set cs"
  shows "ny \<le> cy"
proof -
  from assms(1) obtain blk px where blk: "blk \<in> set (PIECES (kind p))"
    and cs: "cs = map (\<lambda>(a, b). (px + a, ny + b)) blk"
    by (auto simp: cells_def Let_def dest!: py_nth_mem)
  from assms(2) cs obtain a b where ab: "(a, b) \<in> set blk" "cy = ny + b" by auto
  from PIECES_nonneg [OF blk ab(1)] ab(2) show ?thesis by simp
qed

lemma collides_free_above_floor:
  "collides b cs = Some False \<Longrightarrow> (cx, cy) \<in> set cs \<Longrightarrow> cy < h b"
  by (induction b cs rule: collides.induct) (auto split: if_splits option.splits)

lemma free_cells_above_floor:
  assumes "cells p xo (Some ny) ro \<bind> collides b = Some False"
  shows "ny < h b"
proof -
  from assms obtain cs where cs: "cells p xo (Some ny) ro = Some cs" "collides b cs = Some False"
    by (auto simp: bind_eq_Some_conv)
  from cells_length [OF cs(1)] obtain c cs' where "cs = c # cs'" by (cases cs) auto
  moreover obtain cx cy where "c = (cx, cy)" by (cases c)
  ultimately have mem: "(cx, cy) \<in> set cs" by simp
  from cells_below [OF cs(1) mem] collides_free_above_floor [OF cs(2) mem] show ?thesis
    by simp
qed

section \<open>The two falling loops\<close>

text \<open>
  \<open>hard_drop\<close>: \<open>while self.try_move(0, 1): dist += 1\<close> (the counter is \<open>dst\<close> here), then the
  score and the lock.
  A step that moves takes the piece one row nearer to the floor, below which every cell
  collides, so the loop ends.
\<close>

function hard_drop_loop :: "game \<Rightarrow> int \<Rightarrow> (game \<times> int) option" where
  "hard_drop_loop s dst =
     (case try_move s 0 1 of
        None \<Rightarrow> None
      | Some (moved, s') \<Rightarrow>
          if moved then hard_drop_loop s' (dst + 1) else Some (s', dst))"
  by pat_completeness auto
termination
proof (relation "measure (\<lambda>(s, dst). nat (h (board s) - y (current s)))")
  show "wf (measure (\<lambda>(s, dst). nat (h (board s) - y (current s))))" by simp
next
  fix s :: game and dst :: int and r moved s'
  assume "try_move s 0 1 = Some r" "(moved, s') = r" moved
  then have tm: "try_move s 0 1 = Some (True, s')" by simp
  then have free: "cells (current s) (Some (x (current s))) (Some (y (current s) + 1)) None
                    \<bind> collides (board s) = Some False"
    and s': "s' = s\<lparr>current := (current s)\<lparr>x := x (current s), y := y (current s) + 1\<rparr>\<rparr>"
    by (auto simp: try_move_def Let_def split: if_splits option.splits)
  from free_cells_above_floor [OF free] s'
  show "((s', dst + 1), (s, dst)) \<in> measure (\<lambda>(s, dst). nat (h (board s) - y (current s)))"
    by simp
qed

definition hard_drop :: "game \<Rightarrow> game option" where
  "hard_drop s =
     (case hard_drop_loop s 0 of
        None \<Rightarrow> None
      | Some (s1, dst) \<Rightarrow> lock_and_clear (s1\<lparr>score := score s1 + 2 * dst\<rparr>))"

text \<open>\<open>ghost_y\<close>: \<open>y = self.current.y\<close>, then \<open>y += 1\<close> while the cells at \<open>y + 1\<close> are free.\<close>

function ghost_loop :: "board \<Rightarrow> piece \<Rightarrow> int \<Rightarrow> int option" where
  "ghost_loop b p gy =
     (case cells p (Some (x p)) (Some (gy + 1)) None \<bind> collides b of
        None \<Rightarrow> None
      | Some c \<Rightarrow> if \<not> c then ghost_loop b p (gy + 1) else Some gy)"
  by pat_completeness auto
termination
proof (relation "measure (\<lambda>(b, p, gy). nat (h b - gy))")
  show "wf (measure (\<lambda>(b, p, gy). nat (h b - gy)))" by simp
next
  fix b :: board and p :: piece and gy :: int and c
  assume "cells p (Some (x p)) (Some (gy + 1)) None \<bind> collides b = Some c" "\<not> c"
  then have "cells p (Some (x p)) (Some (gy + 1)) None \<bind> collides b = Some False" by simp
  from free_cells_above_floor [OF this]
  show "((b, p, gy + 1), (b, p, gy)) \<in> measure (\<lambda>(b, p, gy). nat (h b - gy))"
    by simp
qed

definition ghost_y :: "game \<Rightarrow> int option" where
  "ghost_y s = ghost_loop (board s) (current s) (y (current s))"

text \<open>The equations of the two loops are unfolded one step at a time, by hand.\<close>

declare hard_drop_loop.simps [simp del] ghost_loop.simps [simp del]

section \<open>Well-formed boards and the specification's view of lock\<close>

text \<open>
  The constructor builds \<open>h\<close> rows of \<open>w\<close> cells and \<open>lock\<close> keeps that shape; a
  statement that reads the grid by index is made for boards of that shape.
\<close>

definition wf_board :: "board \<Rightarrow> bool" where
  "wf_board b \<longleftrightarrow>
     length (grid b) = nat (h b) \<and> list_all (\<lambda>row. length row = nat (w b)) (grid b)"

definition no_full_row :: "board \<Rightarrow> bool" where
  "no_full_row b \<longleftrightarrow> list_all (\<lambda>row. \<not> is_full row) (grid b)"

text \<open>Every cell that \<open>lock\<close> would write lies in a column of the board.\<close>

definition in_columns :: "board \<Rightarrow> (int \<times> int) list \<Rightarrow> bool" where
  "in_columns b cs \<longleftrightarrow>
     list_all (\<lambda>(cx, cy). 0 \<le> cy \<and> cy < h b \<longrightarrow> 0 \<le> cx \<and> cx < w b) cs"

text \<open>
  The specification's words for \<open>lock\<close>, to be compared with the loops of the source:
  \<open>written\<close> is the grid in which exactly the given cells hold the kind and every other
  cell keeps its content; \<open>remove_and_prepend\<close> drops the full rows, keeps the others in
  their order and puts as many empty rows on top.
\<close>

definition written :: "board \<Rightarrow> kind \<Rightarrow> (int \<times> int) list \<Rightarrow> grid" where
  "written b k cs =
     map (\<lambda>r. map (\<lambda>c. if (int c, int r) \<in> set cs then Some k else grid b ! r ! c)
                 [0..<nat (w b)])
         [0..<nat (h b)]"

definition remove_and_prepend :: "int \<Rightarrow> grid \<Rightarrow> grid" where
  "remove_and_prepend bw g =
     replicate (length (filter is_full g)) (replicate (nat bw) None) @
     filter (\<lambda>row. \<not> is_full row) g"

text \<open>The content of one cell after a lock, and the number the lock returns.\<close>

definition cell_after_lock :: "board \<Rightarrow> piece \<Rightarrow> int \<Rightarrow> int \<Rightarrow> kind option option" where
  "cell_after_lock b p cy cx =
     (case lock b p of None \<Rightarrow> None | Some (b', n) \<Rightarrow> grid_at (grid b') cy cx)"

definition cleared_by_lock :: "board \<Rightarrow> piece \<Rightarrow> int option" where
  "cleared_by_lock b p = map_option snd (lock b p)"

subsection \<open>Boards and pieces used as concrete inputs\<close>

text \<open>A 10 x 20 board whose bottom row lacks only the columns 3 to 6.\<close>

definition almost_full_board :: board where
  "almost_full_board = (Board 10 20)\<lparr>grid := replicate 19 (replicate 10 None) @
      [[Some KO, Some KO, Some KO, None, None, None, None, Some KT, Some KT, Some KT]]\<rparr>"

definition flat_I_row18 :: piece where
  "flat_I_row18 = (Piece KI)\<lparr>y := 18\<rparr>"

text \<open>A 10 x 20 board whose five bottom rows are full.\<close>

definition five_full_board :: board where
  "five_full_board = (Board 10 20)\<lparr>grid := replicate 15 (replicate 10 None) @
      replicate 5 (replicate 10 (Some KO))\<rparr>"

text \<open>A 10 x 20 board with one occupied cell, in row 1 and column 4.\<close>

definition row1_board :: board where
  "row1_board = (Board 10 20)\<lparr>grid := replicate 1 (replicate 10 None) @
      [[None, None, None, None, Some KT, None, None, None, None, None]] @
      replicate 18 (replicate 10 None)\<rparr>"

text \<open>A 10 x 20 board with one occupied cell, in row 0 and column 4.\<close>

definition row0_board :: board where
  "row0_board = (Board 10 20)\<lparr>grid :=
      [[None, None, None, None, Some KT, None, None, None, None, None]] @
      replicate 19 (replicate 10 None)\<rparr>"

section \<open>The specification's words for the engine\<close>

text \<open>
  \<open>fits s r off\<close>: the current piece's cells at rotation \<open>r\<close>, translated by the offset,
  do not collide. \<open>turned s r off\<close>: the state in which the current piece has taken that
  rotation and that translation, and nothing else has changed.
\<close>

definition fits :: "game \<Rightarrow> int \<Rightarrow> int \<times> int \<Rightarrow> bool" where
  "fits s r off \<longleftrightarrow>
     cells (current s) (Some (x (current s) + fst off)) (Some (y (current s) + snd off)) (Some r)
       \<bind> collides (board s) = Some False"

definition turned :: "game \<Rightarrow> int \<Rightarrow> int \<times> int \<Rightarrow> game" where
  "turned s r off =
     s\<lparr>current := (current s)\<lparr>rot := r, x := x (current s) + fst off,
                                y := y (current s) + snd off\<rparr>\<rparr>"

text \<open>
  An engine state around a given board, current piece and held kind, with the counters of
  a new game; its bag yields the kinds in the order of \<open>all_kinds\<close>, again and again.
\<close>

definition game_with :: "board \<Rightarrow> piece \<Rightarrow> kind option \<Rightarrow> game" where
  "game_with b p held =
     \<lparr>board = b, bag = cycle all_kinds, next_queue = [KJ, KL, KO, KS, KT], current = p,
      hold = held, hold_used = False, score = 0, level = 1, lines = 0,
      drop_cooldown = 0.5, gravity_timer = 0, game_over = False, paused = False\<rparr>"

text \<open>A T piece at its spawn position on the empty board.\<close>

definition fresh_T_game :: game where
  "fresh_T_game = game_with (Board GRID_W GRID_H) (Piece KT) None"

text \<open>
  The first statement of \<open>spawn_new\<close>: the kind it takes (the head of the queue, or a draw
  when the queue is empty), the rest of the queue, and the bag after that.
\<close>

definition spawn_draw :: "game \<Rightarrow> kind \<times> kind list \<times> kind stream" where
  "spawn_draw s =
     (case next_queue s of k # q \<Rightarrow> (k, q, bag s) | [] \<Rightarrow> (shd (bag s), [], stl (bag s)))"

text \<open>The scoring table of the specification: 100, 300, 500, 800 for 1 to 4 rows.\<close>

definition award :: "int \<Rightarrow> int" where
  "award c = (if c = 1 then 100 else if c = 2 then 300 else if c = 3 then 500
              else if c = 4 then 800 else 0)"

text \<open>
  The state in which the flat I piece is about to complete the bottom row, and the state
  after its lock: one line, 100 points, the next kind of the queue in play.
\<close>

definition one_line_game :: game where
  "one_line_game = game_with almost_full_board flat_I_row18 None"

definition after_one_line :: game where
  "after_one_line =
     one_line_game\<lparr>board := Board 10 20, score := 100, lines := 1, current := Piece KJ,
                   next_queue := [KL, KO, KS, KT, KI], bag := stl (cycle all_kinds),
                   hold_used := False\<rparr>"

text \<open>
  A shuffle for concrete runs of the bag: it moves the first element of the list to the
  end, and counts its calls in the state of the random number generator.
\<close>

definition turn_shuffle :: "nat \<Rightarrow> kind list \<Rightarrow> kind list \<times> nat" where
  "turn_shuffle r xs = (rotate1 xs, r + 1)"

definition turned_bag :: "kind stream" where
  "turned_bag = bag_generator turn_shuffle 0"

text \<open>The kinds still to become active, in order: the queue, then what the bag will yield.\<close>

definition upcoming :: "game \<Rightarrow> kind stream" where
  "upcoming s = next_queue s @- bag s"

text \<open>The state after the spawn that follows the T piece of \<open>fresh_T_game\<close>.\<close>

definition after_fresh_T :: game where
  "after_fresh_T =
     fresh_T_game\<lparr>current := Piece KJ, next_queue := [KL, KO, KS, KT, KI],
                  bag := stl (cycle all_kinds), hold_used := False\<rparr>"

section \<open>The specification's words for the spawn nudges\<close>

text \<open>
  \<open>nudge_fits b p off\<close>: the cells of the piece translated by the offset (dx, dy) do not
  collide. \<open>nudged p off\<close>: the piece translated. \<open>source_nudges\<close> lists the offsets in the
  order in which the loops of \<open>spawn_new\<close> reach them, \<open>spec_nudges\<close> in the order of the
  specification, read as (dx, dy); \<open>spec_nudges_dy_first\<close> is the specification's list read
  as (dy, dx).
\<close>

definition nudge_fits :: "board \<Rightarrow> piece \<Rightarrow> int \<times> int \<Rightarrow> bool" where
  "nudge_fits b p off \<longleftrightarrow>
     cells p (Some (x p + fst off)) (Some (y p + snd off)) None \<bind> collides b = Some False"

definition nudged :: "piece \<Rightarrow> int \<times> int \<Rightarrow> piece" where
  "nudged p off = p\<lparr>x := x p + fst off, y := y p + snd off\<rparr>"

definition source_nudges :: "(int \<times> int) list" where
  "source_nudges = [(0,0), (-1,0), (1,0), (0,-1), (-1,-1), (1,-1), (0,1), (-1,1), (1,1)]"

definition spec_nudges :: "(int \<times> int) list" where
  "spec_nudges = [(0,0), (0,-1), (0,1), (-1,0), (-1,1), (-1,-1), (1,0), (1,1), (1,-1)]"

definition spec_nudges_dy_first :: "(int \<times> int) list" where
  "spec_nudges_dy_first = map (\<lambda>(dy, dx). (dx, dy)) spec_nudges"

text \<open>
  Two states in which the next spawn collides. In the first the only occupied cell is in
  row 1 and column 5, and an O piece is next. In the second the cells in row 0, column 4
  and in row 1, column 3 are occupied, and a J piece is next.
\<close>

definition blocked_O_game :: game where
  "blocked_O_game =
     (game_with
        ((Board 10 20)\<lparr>grid := replicate 1 (replicate 10 None) @
           [[None, None, None, None, None, Some KT, None, None, None, None]] @
           replicate 18 (replicate 10 None)\<rparr>)
        (Piece KT) None)\<lparr>next_queue := [KO, KS, KT, KZ, KI]\<rparr>"

definition blocked_J_game :: game where
  "blocked_J_game =
     game_with
       ((Board 10 20)\<lparr>grid :=
          [[None, None, None, None, Some KT, None, None, None, None, None],
           [None, None, None, Some KT, None, None, None, None, None, None]] @
          replicate 18 (replicate 10 None)\<rparr>)
       (Piece KT) None"

section \<open>Concrete engines for the hold and for the game-over state\<close>

text \<open>
  The engine the constructor builds from \<open>turned_bag\<close>, the state after one call of
  \<open>hold_piece\<close>, and the state after a second call.
\<close>

definition new_game :: game where
  "new_game =
     \<lparr>board = Board GRID_W GRID_H, bag = sdrop 7 turned_bag,
      next_queue = [KL, KO, KS, KT, KI], current = Piece KJ,
      hold = None, hold_used = False, score = 0, level = 1, lines = 0,
      drop_cooldown = 0.5, gravity_timer = 0, game_over = False, paused = False\<rparr>"

definition held_once :: game where
  "held_once =
     new_game\<lparr>hold := Some KJ, current := Piece KL,
              next_queue := [KO, KS, KT, KI, KL], bag := stl (sdrop 7 turned_bag)\<rparr>"

definition held_twice :: game where
  "held_twice = held_once\<lparr>hold_used := True, hold := Some KL, current := Piece KJ\<rparr>"

text \<open>
  A board on which flat I pieces fill the columns 3 to 6 from row 19 up to row 1; an
  engine on it that holds a T piece while an I piece, nudged up at its spawn, is current;
  the state after \<open>hold_piece\<close>, in which the T piece collides at the spawn position and
  the game is over; and that state with the T piece written into the board.
\<close>

definition stack_board :: board where
  "stack_board = (Board 10 20)\<lparr>grid := replicate 1 (replicate 10 None) @
      replicate 19 [None, None, None, Some KI, Some KI, Some KI, Some KI, None, None, None]\<rparr>"

definition stacked_game :: game where
  "stacked_game = game_with stack_board ((Piece KI)\<lparr>y := - 1\<rparr>) (Some KT)"

definition over_game :: game where
  "over_game =
     stacked_game\<lparr>hold_used := True, hold := Some KI, current := Piece KT, game_over := True\<rparr>"

definition stack_board_locked :: board where
  "stack_board_locked = stack_board\<lparr>grid :=
      [[None, None, None, None, Some KT, None, None, None, None, None],
       [None, None, None, Some KT, Some KT, Some KT, Some KI, None, None, None]] @
      replicate 18 [None, None, None, Some KI, Some KI, Some KI, Some KI, None, None, None]\<rparr>"

definition over_game_locked :: game where
  "over_game_locked = over_game\<lparr>board := stack_board_locked\<rparr>"

section \<open>The states an engine can reach\<close>

text \<open>
  \<open>reachable\<close> holds the states the constructor returns and those that any call of the
  engine's methods makes of a reachable state, with any arguments: \<open>try_move\<close>, \<open>rotate\<close>,
  \<open>soft_drop\<close>, \<open>hard_drop\<close>, \<open>hold_piece\<close>, \<open>tick\<close> (with any rounding of the floats), and the
  two assignments of the frame
  loop, \<open>game.paused = not game.paused\<close> and \<open>game.score = 0\<close>. \<open>engine_inv\<close> is what all of
  them keep: the board has the constructor's shape, 10 by 20, and no full row; the current
  piece has a rotation in 0..3 and all its cells in the columns of the board; and the
  level is 1 + lines div 10.
\<close>

definition in_all_columns :: "board \<Rightarrow> (int \<times> int) list \<Rightarrow> bool" where
  "in_all_columns b cs \<longleftrightarrow> list_all (\<lambda>(cx, cy). 0 \<le> cx \<and> cx < w b) cs"

definition board_inv :: "board \<Rightarrow> bool" where
  "board_inv b \<longleftrightarrow> wf_board b \<and> w b = GRID_W \<and> h b = GRID_H \<and> no_full_row b"

definition piece_inv :: "board \<Rightarrow> piece \<Rightarrow> bool" where
  "piece_inv b p \<longleftrightarrow>
     rot p \<in> {0, 1, 2, 3}
     \<and> (case cells p None None None of None \<Rightarrow> False | Some cs \<Rightarrow> in_all_columns b cs)"

definition engine_inv :: "game \<Rightarrow> bool" where
  "engine_inv s \<longleftrightarrow>
     board_inv (board s) \<and> piece_inv (board s) (current s) \<and> level s = 1 + lines s div 10"

inductive_set reachable :: "game set" where
  start: "Game g = Some s \<Longrightarrow> s \<in> reachable"
| move: "s \<in> reachable \<Longrightarrow> try_move s dx dy = Some (moved, s') \<Longrightarrow> s' \<in> reachable"
| turn: "s \<in> reachable \<Longrightarrow> rotate s dir = Some s' \<Longrightarrow> s' \<in> reachable"
| soft: "s \<in> reachable \<Longrightarrow> soft_drop s = Some s' \<Longrightarrow> s' \<in> reachable"
| hard: "s \<in> reachable \<Longrightarrow> hard_drop s = Some s' \<Longrightarrow> s' \<in> reachable"
| held: "s \<in> reachable \<Longrightarrow> hold_piece s = Some s' \<Longrightarrow> s' \<in> reachable"
| time: "s \<in> reachable \<Longrightarrow> tick rnd s dt = Some s' \<Longrightarrow> s' \<in> reachable"
| pause: "s \<in> reachable \<Longrightarrow> s\<lparr>paused := \<not> paused s\<rparr> \<in> reachable"
| score_reset: "s \<in> reachable \<Longrightarrow> s\<lparr>score := 0\<rparr> \<in> reachable"

section \<open>The board: lock and top-out\<close>

lemma grid_at_in_range:
  "0 \<le> cy \<Longrightarrow> nat cy < length g \<Longrightarrow> 0 \<le> cx \<Longrightarrow> nat cx < length (g ! nat cy) \<Longrightarrow>
   grid_at g cy cx = Some (g ! nat cy ! nat cx)"
  by (auto simp add: grid_at_def py_nth_def Let_def)

subsection \<open>Writing the cells\<close>

lemma lock_cells_written:
  assumes "length g = nat bh" and "\<forall>row \<in> set g. length row = nat bw"
    and "list_all (\<lambda>(cx, cy). 0 \<le> cy \<and> cy < bh \<longrightarrow> 0 \<le> cx \<and> cx < bw) cs"
  shows "lock_cells bh k g cs =
     Some (map (\<lambda>r. map (\<lambda>c. if (int c, int r) \<in> set cs then Some k else g ! r ! c)
                 [0..<nat bw]) [0..<nat bh])"
  using assms
proof (induction cs arbitrary: g)
  case Nil
  then show ?case by (auto intro!: nth_equalityI)
next
  case (Cons c cs)
  obtain cx cy where c: "c = (cx, cy)" by (cases c)
  show ?case
  proof (cases "0 \<le> cy \<and> cy < bh")
    case False
    then have "\<And>r cc. r < nat bh \<Longrightarrow> (int cc, int r) \<noteq> (cx, cy)" by auto
    with False Cons c show ?thesis by (auto intro!: nth_equalityI)
  next
    case True
    with Cons.prems c have cxr: "0 \<le> cx" "cx < bw" by auto
    let ?row = "g ! nat cy"
    let ?g' = "g[nat cy := ?row[nat cx := Some k]]"
    from True Cons.prems have rowlen: "length ?row = nat bw" by auto
    have step: "lock_cells bh k g (c # cs) = lock_cells bh k ?g' cs"
      using True cxr rowlen Cons.prems(1) c
      by (simp add: py_nth_in_range py_set_in_range)
    have len': "length ?g' = nat bh" using Cons.prems by simp
    have rows': "\<forall>row \<in> set ?g'. length row = nat bw"
      using Cons.prems(2) rowlen by (auto dest!: set_update_subset_insert [THEN subsetD])
    have "lock_cells bh k ?g' cs =
      Some (map (\<lambda>r. map (\<lambda>c. if (int c, int r) \<in> set cs then Some k else ?g' ! r ! c)
                 [0..<nat bw]) [0..<nat bh])"
      using Cons.IH [OF len' rows'] Cons.prems(3) by simp
    also have "map (\<lambda>r. map (\<lambda>c. if (int c, int r) \<in> set cs then Some k else ?g' ! r ! c)
                 [0..<nat bw]) [0..<nat bh] =
               map (\<lambda>r. map (\<lambda>cc. if (int cc, int r) \<in> set (c # cs) then Some k else g ! r ! cc)
                 [0..<nat bw]) [0..<nat bh]"
      using True cxr rowlen Cons.prems(1) c
      by (auto intro!: nth_equalityI simp: nth_list_update)
    finally show ?thesis using step by simp
  qed
qed

subsection \<open>Deleting the full rows one by one\<close>

lemma full_rows_Nil: "full_rows [] = []"
  by (simp add: full_rows_def)

lemma full_rows_Cons:
  "full_rows (r # g) = (if is_full r then [0] else []) @ map Suc (full_rows g)"
proof -
  have "[0..<length (r # g)] = 0 # map Suc [0..<length g]"
    by (simp add: upt_conv_Cons map_Suc_upt del: upt_Suc)
  then show ?thesis
    by (simp add: full_rows_def filter_map comp_def)
qed

lemma length_full_rows: "length (full_rows g) = length (filter is_full g)"
  by (induction g) (simp_all add: full_rows_Cons full_rows_Nil)

text \<open>
  The loop invariant: after some deletions the grid is a block \<open>E\<close> of rows already
  dealt with, followed by the rows \<open>R\<close> still to scan, and the indices still in \<open>full\<close> are
  those of the full rows of \<open>R\<close>, shifted by the length of \<open>E\<close>.
\<close>

lemma clear_rows_shift:
  "clear_rows bw (map (\<lambda>j. j + length E) (full_rows R)) (E @ R) =
   replicate (length (full_rows R)) (replicate (nat bw) None) @ E @ filter (\<lambda>row. \<not> is_full row) R"
proof (induction R arbitrary: E)
  case Nil
  then show ?case by (simp add: full_rows_Nil)
next
  case (Cons r R)
  show ?case
  proof (cases "is_full r")
    case False
    have "map (\<lambda>j. j + length E) (full_rows (r # R)) = map (\<lambda>j. j + length (E @ [r])) (full_rows R)"
      using False by (simp add: full_rows_Cons)
    then show ?thesis using Cons.IH [of "E @ [r]"] False by (simp add: full_rows_Cons comp_def)
  next
    case True
    have "map (\<lambda>j. j + length E) (full_rows (r # R)) =
          length E # map (\<lambda>j. j + length (replicate (nat bw) None # E)) (full_rows R)"
      using True by (simp add: full_rows_Cons)
    then show ?thesis
      using Cons.IH [of "replicate (nat bw) None # E"] True
      by (simp add: full_rows_Cons replicate_append_same comp_def)
  qed
qed

lemma clear_rows_full_rows:
  "clear_rows bw (full_rows g) g = remove_and_prepend bw g"
  using clear_rows_shift [of bw "[]" g]
  by (simp add: remove_and_prepend_def length_full_rows)

subsection \<open>At most one more full row for each cell written\<close>

lemma filter_update_le:
  "length (filter P (xs[i := v])) \<le> Suc (length (filter P xs))"
proof (induction xs arbitrary: i)
  case Nil then show ?case by simp
next
  case (Cons a xs)
  then show ?case by (cases i) (auto intro: le_SucI)
qed

lemma lock_cells_full_count:
  "lock_cells bh k g cs = Some g' \<Longrightarrow>
   length (filter is_full g') \<le> length (filter is_full g) + length cs"
proof (induction cs arbitrary: g)
  case Nil then show ?case by simp
next
  case (Cons c cs)
  obtain cx cy where c: "c = (cx, cy)" by (cases c)
  show ?case
  proof (cases "0 \<le> cy \<and> cy < bh")
    case False
    with Cons.prems c have "lock_cells bh k g cs = Some g'" by simp
    from Cons.IH [OF this] show ?thesis by simp
  next
    case True
    with Cons.prems c obtain row row' g1 where
      s: "py_nth g cy = Some row" "py_set row cx (Some k) = Some row'" "py_set g cy row' = Some g1"
         "lock_cells bh k g1 cs = Some g'"
      by (auto split: option.splits)
    from s(3) obtain j where "g1 = g[j := row']"
      by (auto simp: py_set_def Let_def split: if_splits)
    then have "length (filter is_full g1) \<le> Suc (length (filter is_full g))"
      by (simp add: filter_update_le)
    with Cons.IH [OF s(4)] show ?thesis by simp
  qed
qed

subsection \<open>Top-out looks at row 0\<close>

lemma top_out_cols_row0:
  "g \<noteq> [] \<Longrightarrow> \<forall>cx \<in> set cxs. 0 \<le> cx \<and> nat cx < length (g ! 0) \<Longrightarrow>
   top_out_cols g cxs = Some (\<exists>cx \<in> set cxs. g ! 0 ! nat cx \<noteq> None)"
proof (induction cxs)
  case Nil
  then show ?case by simp
next
  case (Cons c cs)
  then have at: "grid_at g 0 c = Some (g ! 0 ! nat c)"
    using grid_at_in_range [of 0 g c] by simp
  show ?case
  proof (cases "g ! 0 ! nat c")
    case None
    with Cons at show ?thesis by simp
  next
    case (Some k)
    with Cons at show ?thesis by simp
  qed
qed

section \<open>The engine: probes never raise on a well-formed board\<close>

lemma collides_total: "wf_board b \<Longrightarrow> \<exists>r. collides b cs = Some r"
proof (induction b cs rule: collides.induct)
  case (1 b)
  then show ?case by auto
next
  case (2 b cx cy cs)
  show ?case
  proof (cases "cx < 0 \<or> cx \<ge> w b \<or> cy \<ge> h b \<or> cy < 0")
    case True
    with 2 show ?thesis by auto
  next
    case False
    with "2.prems" have "nat cy < length (grid b)" "nat cx < length (grid b ! nat cy)"
      by (auto simp: wf_board_def list_all_iff)
    with False have "grid_at (grid b) cy cx = Some (grid b ! nat cy ! nat cx)"
      by (intro grid_at_in_range) auto
    with False 2 show ?thesis by auto
  qed
qed

lemma cells_total: "0 \<le> r \<Longrightarrow> r < 4 \<Longrightarrow> \<exists>cs. cells p xo yo (Some r) = Some cs"
  by (cases "kind p") (auto simp: cells_def py_nth_def Let_def)

lemma cells_total_own: "0 \<le> rot p \<Longrightarrow> rot p < 4 \<Longrightarrow> \<exists>cs. cells p xo yo None = Some cs"
  by (cases "kind p") (auto simp: cells_def py_nth_def Let_def)

lemma probe_total:
  assumes "wf_board b" and "cells p xo yo ro = Some cs"
  shows "\<exists>c. cells p xo yo ro \<bind> collides b = Some c"
  using collides_total [OF assms(1), of cs] assms(2) by simp

lemma wf_board_Board: "wf_board (Board GRID_W GRID_H)"
  by code_simp

section \<open>The engine: what a spawn changes\<close>

lemma spawn_new_unfold:
  assumes "spawn_draw s = (k, q, g)"
  shows "spawn_new s =
      (case cells (Piece k) None None None \<bind> collides (board s) of
         None \<Rightarrow> None
       | Some c \<Rightarrow>
           if c then
             (case nudge_dy (board s) (Piece k) [0, - 1, 1] of
                None \<Rightarrow> None
              | Some (Some p') \<Rightarrow>
                  Some (s\<lparr>next_queue := q @ [shd g], bag := stl g, hold_used := False,
                          current := p'\<rparr>)
              | Some None \<Rightarrow>
                  Some (s\<lparr>current := Piece k, next_queue := q @ [shd g], bag := stl g,
                          hold_used := False, game_over := True\<rparr>))
           else Some (s\<lparr>current := Piece k, next_queue := q @ [shd g], bag := stl g,
                        hold_used := False\<rparr>))"
  using assms unfolding spawn_new_def spawn_draw_def
  by (simp add: Let_def del: nudge_dy.simps cong: option.case_cong if_cong)

lemma nudge_dx_moves:
  "nudge_dx b p dy dxs = Some (Some p') \<Longrightarrow> \<exists>dx \<in> set dxs. p' = p\<lparr>x := x p + dx, y := y p + dy\<rparr>"
  by (induction dxs) (auto split: option.splits if_splits)

lemma nudge_dy_moves:
  "nudge_dy b p dys = Some (Some p') \<Longrightarrow> \<exists>px py. p' = p\<lparr>x := px, y := py\<rparr>"
proof (induction dys)
  case Nil
  then show ?case by simp
next
  case (Cons dy dys)
  then show ?case
    by (auto simp del: nudge_dx.simps split: option.splits dest!: nudge_dx_moves)
qed

lemma spawn_new_shape:
  assumes "spawn_new s = Some s'" and "spawn_draw s = (k, q, g)"
  shows "\<exists>px py go. s' = s\<lparr>current := (Piece k)\<lparr>x := px, y := py\<rparr>, next_queue := q @ [shd g],
                             bag := stl g, hold_used := False, game_over := go\<rparr>"
proof -
  note u = spawn_new_unfold [OF assms(2)]
  have own: "Piece k = (Piece k)\<lparr>x := 3, y := 0\<rparr>" by (simp add: Piece_def)
  show ?thesis
  proof (cases "cells (Piece k) None None None \<bind> collides (board s)")
    case None
    with u assms(1) show ?thesis by simp
  next
    case (Some c)
    show ?thesis
    proof (cases c)
      case False
      with Some u assms(1) have
        "s' = s\<lparr>current := Piece k, next_queue := q @ [shd g], bag := stl g,
                hold_used := False\<rparr>" by simp
      then have "s' = s\<lparr>current := (Piece k)\<lparr>x := 3, y := 0\<rparr>, next_queue := q @ [shd g],
                bag := stl g, hold_used := False, game_over := game_over s\<rparr>"
        using own by simp
      then show ?thesis by blast
    next
      case True
      with Some u have u': "spawn_new s =
          (case nudge_dy (board s) (Piece k) [0, - 1, 1] of
             None \<Rightarrow> None
           | Some (Some p') \<Rightarrow>
               Some (s\<lparr>next_queue := q @ [shd g], bag := stl g, hold_used := False,
                       current := p'\<rparr>)
           | Some None \<Rightarrow>
               Some (s\<lparr>current := Piece k, next_queue := q @ [shd g], bag := stl g,
                       hold_used := False, game_over := True\<rparr>))"
        by simp
      show ?thesis
      proof (cases "nudge_dy (board s) (Piece k) [0, - 1, 1]")
        case None
        with u' assms(1) show ?thesis by simp
      next
        case outer: (Some r)
        show ?thesis
        proof (cases r)
          case None
          with outer u' assms(1) have
            "s' = s\<lparr>current := Piece k, next_queue := q @ [shd g], bag := stl g,
                    hold_used := False, game_over := True\<rparr>" by simp
          then have "s' = s\<lparr>current := (Piece k)\<lparr>x := 3, y := 0\<rparr>, next_queue := q @ [shd g],
                    bag := stl g, hold_used := False, game_over := True\<rparr>"
            using own by simp
          then show ?thesis by blast
        next
          case (Some p')
          with outer nudge_dy_moves obtain px py where p': "p' = (Piece k)\<lparr>x := px, y := py\<rparr>"
            by blast
          from Some outer u' assms(1) have
            "s' = s\<lparr>next_queue := q @ [shd g], bag := stl g, hold_used := False,
                    current := p'\<rparr>" by simp
          then have "s' = s\<lparr>current := (Piece k)\<lparr>x := px, y := py\<rparr>, next_queue := q @ [shd g],
                    bag := stl g, hold_used := False, game_over := game_over s\<rparr>"
            using p' by simp
          then show ?thesis by blast
        qed
      qed
    qed
  qed
qed

lemma spawn_new_counters:
  assumes "spawn_new s = Some s'"
  shows "score s' = score s \<and> lines s' = lines s \<and> level s' = level s \<and> board s' = board s"
proof -
  obtain k q g where "spawn_draw s = (k, q, g)" by (cases "spawn_draw s")
  from spawn_new_shape [OF assms this] show ?thesis by auto
qed

text \<open>The spawn that needs no nudge, for evaluation at concrete states.\<close>

lemma spawn_new_free:
  assumes "next_queue s = k # q"
    and "cells (Piece k) None None None \<bind> collides (board s) = Some False"
  shows "spawn_new s =
     Some (s\<lparr>current := Piece k, next_queue := q @ [shd (bag s)], bag := stl (bag s),
             hold_used := False\<rparr>)"
proof -
  from assms(1) have "spawn_draw s = (k, q, bag s)" by (simp add: spawn_draw_def)
  from spawn_new_unfold [OF this] assms(2) show ?thesis by simp
qed

lemma spawn_free_on_empty_board:
  "cells (Piece k) None None None \<bind> collides (Board GRID_W GRID_H) = Some False"
  by (cases k; hypsubst_thin; code_simp)

lemma top_out_empty_board: "top_out (Board GRID_W GRID_H) = Some False"
  by code_simp

section \<open>The engine: lock_and_clear in one step\<close>

lemma lock_and_clear_unfold:
  assumes "lock (board s) (current s) = Some (b, c)"
  shows "lock_and_clear s =
     (let s2 = (if c \<noteq> 0 then
                  s\<lparr>board := b,
                    score := score s + (case scores c of None \<Rightarrow> 0 | Some v \<Rightarrow> v) * level s,
                    lines := lines s + c,
                    level := 1 + (lines s + c) div 10\<rparr>
                else s\<lparr>board := b\<rparr>)
      in case top_out b of
           None \<Rightarrow> None
         | Some t \<Rightarrow> if t then Some (s2\<lparr>game_over := True\<rparr>) else spawn_new s2)"
proof -
  show ?thesis
  proof (cases "c = 0")
    case True
    then show ?thesis
      by (simp add: lock_and_clear_def assms Let_def cong: option.case_cong if_cong)
  next
    case False
    show ?thesis
    proof (cases "1 + (lines s + c) div 10 = level s")
      case True
      with False show ?thesis
        by (simp add: lock_and_clear_def assms Let_def cong: option.case_cong if_cong)
    next
      case neq: False
      with False show ?thesis
        by (simp add: lock_and_clear_def assms Let_def cong: option.case_cong if_cong)
    qed
  qed
qed

section \<open>The engine: the constructor and the bag of the concrete runs\<close>

lemma stake_sdrop_numeral:
  "stake 5 g = [g !! 0, g !! 1, g !! 2, g !! 3, g !! 4]"
  "shd (sdrop 5 g) = g !! 5" "stl (sdrop 5 g) = sdrop 6 g" "shd (sdrop 6 g) = g !! 6"
  "stl (sdrop 6 g) = sdrop 7 g"
  by (simp_all add: eval_nat_numeral)

lemma Game_result:
  "Game g = Some \<lparr>board = Board GRID_W GRID_H, bag = sdrop 7 g,
      next_queue = [g !! 1, g !! 2, g !! 3, g !! 4, g !! 6], current = Piece (g !! 0),
      hold = None, hold_used = False, score = 0, level = 1, lines = 0,
      drop_cooldown = 0.5, gravity_timer = 0, game_over = False, paused = False\<rparr>"
  unfolding Game_def Let_def
  by (subst spawn_new_free [where k = "g !! 0" and q = "[g !! 1, g !! 2, g !! 3, g !! 4]"])
     (simp_all add: stake_sdrop_numeral spawn_free_on_empty_board)

lemma spawn_new_upcoming:
  assumes "spawn_new s = Some s'"
  shows "kind (current s') = shd (upcoming s) \<and> upcoming s' = stl (upcoming s)"
proof -
  obtain k q g where d: "spawn_draw s = (k, q, g)" by (cases "spawn_draw s")
  from spawn_new_shape [OF assms d] have
    s': "kind (current s') = k" "next_queue s' = q @ [shd g]" "bag s' = stl g"
    by (auto simp: Piece_def)
  from d have "upcoming s = k ## (q @- g)"
    by (cases "next_queue s") (auto simp: spawn_draw_def upcoming_def)
  with s' show ?thesis by (simp add: upcoming_def)
qed

lemma first_draws_turned:
  "stake 8 turned_bag = [KJ, KL, KO, KS, KT, KZ, KI, KL]"
  "stake 7 (stake 5 turned_bag @- sdrop 6 turned_bag) = [KJ, KL, KO, KS, KT, KI, KL]"
  by (simp_all add: turned_bag_def bag_generator_def turn_shuffle_def all_kinds_def eval_nat_numeral)

lemma turned_bag_draws:
  "turned_bag !! 0 = KJ" "turned_bag !! 1 = KL" "turned_bag !! 2 = KO" "turned_bag !! 3 = KS"
  "turned_bag !! 4 = KT" "turned_bag !! 6 = KI" "shd (sdrop 7 turned_bag) = KL"
  "shd turned_bag = KJ" "shd (stl turned_bag) = KL" "turned_bag !! 7 = KL"
  by (simp_all add: turned_bag_def bag_generator_def turn_shuffle_def all_kinds_def
        eval_nat_numeral)

lemma Game_turned_bag: "Game turned_bag = Some new_game"
  by (simp add: Game_result turned_bag_draws new_game_def)

section \<open>What every reachable state satisfies\<close>

lemma collides_free_in_columns:
  "collides b cs = Some False \<Longrightarrow> in_all_columns b cs"
  by (induction b cs rule: collides.induct)
     (auto simp: in_all_columns_def split: if_splits option.splits)

lemma cells_of_moved:
  "cells (p\<lparr>x := nx, y := ny\<rparr>) None None None = cells p (Some nx) (Some ny) None"
  by (simp add: cells_def)

lemma cells_of_turned:
  "cells (p\<lparr>rot := r, x := nx, y := ny\<rparr>) None None None = cells p (Some nx) (Some ny) (Some r)"
  by (simp add: cells_def)

lemma spawn_position_in_columns:
  "\<exists>cs. cells (Piece k) None None None = Some cs \<and> list_all (\<lambda>(cx, cy). 0 \<le> cx \<and> cx < GRID_W) cs"
  by (cases k) (simp_all add: cells_def Piece_def py_nth_def GRID_W_def)

lemma lock_cells_shape:
  "lock_cells bh k g cs = Some g' \<Longrightarrow> \<forall>row \<in> set g. length row = n \<Longrightarrow>
   length g' = length g \<and> (\<forall>row \<in> set g'. length row = n)"
proof (induction cs arbitrary: g)
  case Nil
  then show ?case by simp
next
  case (Cons c cs)
  obtain cx cy where c: "c = (cx, cy)" by (cases c)
  show ?case
  proof (cases "0 \<le> cy \<and> cy < bh")
    case False
    with Cons c show ?thesis by simp
  next
    case True
    with Cons.prems c obtain row row' g1 where
      s: "py_nth g cy = Some row" "py_set row cx (Some k) = Some row'" "py_set g cy row' = Some g1"
         "lock_cells bh k g1 cs = Some g'"
      by (auto split: option.splits)
    from s(1) Cons.prems(2) have "length row = n" by (auto dest: py_nth_mem)
    with s(2) have r': "length row' = n" by (auto simp: py_set_def Let_def split: if_splits)
    from s(3) obtain j where g1: "g1 = g[j := row']"
      by (auto simp: py_set_def Let_def split: if_splits)
    with r' Cons.prems(2) have "\<forall>row \<in> set g1. length row = n"
      by (auto dest!: set_update_subset_insert [THEN subsetD])
    from Cons.IH [OF s(4) this] g1 show ?thesis by simp
  qed
qed

lemma lock_keeps_invariant:
  assumes "lock b p = Some (b', n)" and "wf_board b" and "0 < w b"
  shows "wf_board b' \<and> w b' = w b \<and> h b' = h b \<and> no_full_row b'"
proof -
  from assms(1) obtain cs g where cs: "cells p None None None = Some cs"
    and lc: "lock_cells (h b) (kind p) (grid b) cs = Some g"
    and b': "b' = b\<lparr>grid := clear_rows (w b) (full_rows g) g\<rparr>"
    by (auto simp: lock_def Let_def split: option.splits)
  from assms(2) have rows: "\<forall>row \<in> set (grid b). length row = nat (w b)"
    by (simp add: wf_board_def list_all_iff)
  from lock_cells_shape [OF lc rows] assms(2)
  have g: "length g = nat (h b)" "\<forall>row \<in> set g. length row = nat (w b)"
    by (simp_all add: wf_board_def)
  have len: "length (remove_and_prepend (w b) g) = length g"
    by (simp add: remove_and_prepend_def sum_length_filter_compl)
  have "\<not> is_full (replicate (nat (w b)) None)"
    using assms(3) by (cases "nat (w b)") (auto simp: is_full_def)
  then have nf: "\<forall>row \<in> set (remove_and_prepend (w b) g). \<not> is_full row"
    by (auto simp: remove_and_prepend_def)
  have "\<forall>row \<in> set (remove_and_prepend (w b) g). length row = nat (w b)"
    using g(2) by (auto simp: remove_and_prepend_def)
  with len nf g(1) show ?thesis
    by (simp add: b' clear_rows_full_rows wf_board_def no_full_row_def list_all_iff)
qed


lemma piece_inv_width: "w b' = w b \<Longrightarrow> piece_inv b' p = piece_inv b p"
  by (simp add: piece_inv_def in_all_columns_def cong: option.case_cong)

lemma piece_inv_spawn: "w b = GRID_W \<Longrightarrow> piece_inv b (Piece k)"
  using spawn_position_in_columns [of k]
  by (auto simp: piece_inv_def in_all_columns_def Piece_def)

lemma piece_inv_free_turn:
  assumes "cells p (Some nx) (Some ny) (Some r) \<bind> collides b = Some False"
    and "r \<in> {0, 1, 2, 3}"
  shows "piece_inv b (p\<lparr>rot := r, x := nx, y := ny\<rparr>)"
proof -
  from assms(1) obtain cs where "cells p (Some nx) (Some ny) (Some r) = Some cs"
    "collides b cs = Some False" by (auto simp: bind_eq_Some_conv)
  with collides_free_in_columns [of b cs] assms(2) show ?thesis
    by (simp add: piece_inv_def cells_of_turned)
qed

lemma piece_inv_free_move:
  assumes "cells p (Some nx) (Some ny) None \<bind> collides b = Some False"
    and "rot p \<in> {0, 1, 2, 3}"
  shows "piece_inv b (p\<lparr>x := nx, y := ny\<rparr>)"
proof -
  from assms(1) obtain cs where "cells p (Some nx) (Some ny) None = Some cs"
    "collides b cs = Some False" by (auto simp: bind_eq_Some_conv)
  with collides_free_in_columns [of b cs] assms(2) show ?thesis
    by (simp add: piece_inv_def cells_of_moved)
qed

lemma try_move_inv:
  assumes "engine_inv s" and "try_move s dx dy = Some (moved, s')"
  shows "engine_inv s'"
proof (cases "s' = s")
  case True
  with assms show ?thesis by simp
next
  case False
  with assms(2) have free: "cells (current s) (Some (x (current s) + dx)) (Some (y (current s) + dy)) None
        \<bind> collides (board s) = Some False"
    and s': "s' = s\<lparr>current := (current s)\<lparr>x := x (current s) + dx, y := y (current s) + dy\<rparr>\<rparr>"
    by (auto simp: try_move_def Let_def split: if_splits option.splits)
  from assms(1) have "rot (current s) \<in> {0, 1, 2, 3}" by (simp add: engine_inv_def piece_inv_def)
  from piece_inv_free_move [OF free this] assms(1) show ?thesis
    by (simp add: s' engine_inv_def)
qed

lemma rotate_loop_result:
  "rotate_loop s r cands = Some s' \<Longrightarrow>
   s' = s \<or> (\<exists>off \<in> set cands. fits s r off \<and> s' = turned s r off)"
proof (induction cands)
  case Nil
  then show ?case by simp
next
  case (Cons c cands)
  obtain dx dy where c: "c = (dx, dy)" by (cases c)
  from Cons.prems c obtain col where
    col: "cells (current s) (Some (x (current s) + dx)) (Some (y (current s) + dy)) (Some r)
            \<bind> collides (board s) = Some col"
    by (auto split: option.splits)
  show ?case
  proof (cases col)
    case True
    with col c Cons show ?thesis by auto
  next
    case False
    with col c Cons.prems show ?thesis by (auto simp: fits_def turned_def)
  qed
qed

lemma rotate_inv:
  assumes "engine_inv s" and "rotate s dir = Some s'"
  shows "engine_inv s'"
proof (cases "s' = s")
  case True
  with assms show ?thesis by simp
next
  case False
  let ?r = "(rot (current s) + (if dir > 0 then 1 else - 1)) mod 4"
  from False assms(2) obtain cands where "rotate_loop s ?r cands = Some s'"
    by (auto simp: rotate_def Let_def split: if_splits)
  from rotate_loop_result [OF this] False obtain off where
    f: "fits s ?r off" and s': "s' = turned s ?r off" by blast
  have "?r \<in> {0, 1, 2, 3}"
  proof -
    have "0 \<le> ?r" "?r < 4" by simp_all
    then show ?thesis by auto
  qed
  from piece_inv_free_turn [OF f [unfolded fits_def] this] assms(1) show ?thesis
    by (simp add: s' turned_def engine_inv_def)
qed


lemma nudge_dx_fits:
  "nudge_dx b p dy dxs = Some (Some p') \<Longrightarrow>
   \<exists>dx. p' = p\<lparr>x := x p + dx, y := y p + dy\<rparr> \<and>
        cells p (Some (x p + dx)) (Some (y p + dy)) None \<bind> collides b = Some False"
  by (induction dxs) (auto split: option.splits if_splits)

lemma nudge_dy_fits:
  "nudge_dy b p dys = Some (Some p') \<Longrightarrow>
   \<exists>nx ny. p' = p\<lparr>x := nx, y := ny\<rparr> \<and>
        cells p (Some nx) (Some ny) None \<bind> collides b = Some False"
proof (induction dys)
  case Nil
  then show ?case by simp
next
  case (Cons dy dys)
  then show ?case
    by (auto simp del: nudge_dx.simps split: option.splits dest!: nudge_dx_fits)
qed

lemma spawn_new_inv:
  assumes "board_inv (board s)" and "level s = 1 + lines s div 10"
    and "spawn_new s = Some s'"
  shows "engine_inv s'"
proof -
  obtain k q g where d: "spawn_draw s = (k, q, g)" by (cases "spawn_draw s")
  from spawn_new_counters [OF assms(3)] assms(1,2)
  have rest: "board_inv (board s')" "level s' = 1 + lines s' div 10" "board s' = board s"
    by simp_all
  from assms(1) have wd: "w (board s) = GRID_W" by (simp add: board_inv_def)
  have "piece_inv (board s) (current s')"
  proof (cases "current s' = Piece k")
    case True
    with piece_inv_spawn [OF wd] show ?thesis by simp
  next
    case False
    with assms(3) spawn_new_unfold [OF d] obtain p' where
      n: "nudge_dy (board s) (Piece k) [0, - 1, 1] = Some (Some p')" and c: "current s' = p'"
      by (auto simp del: nudge_dy.simps split: option.splits if_splits)
    from nudge_dy_fits [OF n] obtain nx ny where
      p': "p' = (Piece k)\<lparr>x := nx, y := ny\<rparr>"
      and f: "cells (Piece k) (Some nx) (Some ny) None \<bind> collides (board s) = Some False"
      by blast
    have "rot (Piece k) \<in> {0, 1, 2, 3}" by (simp add: Piece_def)
    from piece_inv_free_move [OF f this] p' c show ?thesis by simp
  qed
  with rest show ?thesis by (simp add: engine_inv_def)
qed

lemma hold_piece_inv:
  assumes "engine_inv s" and "hold_piece s = Some s'"
  shows "engine_inv s'"
proof (cases "s' = s")
  case True
  with assms show ?thesis by simp
next
  case False
  from assms(1) have b: "board_inv (board s)" and l: "level s = 1 + lines s div 10"
    and wd: "w (board s) = GRID_W"
    by (simp_all add: engine_inv_def board_inv_def)
  show ?thesis
  proof (cases "hold s")
    case None
    with False assms(2) have
      "spawn_new (s\<lparr>hold_used := True, hold := Some (kind (current s))\<rparr>) = Some s'"
      by (auto simp: hold_piece_def Let_def split: if_splits)
    from spawn_new_inv [OF _ _ this] b l show ?thesis by simp
  next
    case (Some held)
    have p: "(Piece held)\<lparr>x := 3, y := 0, rot := 0\<rparr> = Piece held" by (simp add: Piece_def)
    let ?s2 = "s\<lparr>hold_used := True, hold := Some (kind (current s)), current := Piece held\<rparr>"
    from Some False assms(2) have "s' = ?s2 \<or> s' = ?s2\<lparr>game_over := True\<rparr>"
      by (auto simp: hold_piece_def Let_def p split: if_splits option.splits)
    then have "board s' = board s \<and> current s' = Piece held \<and> level s' = level s
               \<and> lines s' = lines s"
      by auto
    with b l piece_inv_spawn [OF wd, of held] show ?thesis
      by (simp add: engine_inv_def)
  qed
qed

lemma lock_and_clear_inv:
  assumes "engine_inv s" and "lock_and_clear s = Some s'"
  shows "engine_inv s'"
proof -
  from assms(2) obtain b c where lk: "lock (board s) (current s) = Some (b, c)"
    by (auto simp: lock_and_clear_def split: option.splits)
  from assms(1) have wf: "wf_board (board s)" and wd: "w (board s) = GRID_W"
    and hd: "h (board s) = GRID_H" and pi: "piece_inv (board s) (current s)"
    and l: "level s = 1 + lines s div 10"
    by (simp_all add: engine_inv_def board_inv_def)
  from wd have "0 < w (board s)" by (simp add: GRID_W_def)
  from lock_keeps_invariant [OF lk wf this] wd hd have b: "board_inv b" and wb: "w b = w (board s)"
    by (simp_all add: board_inv_def)
  define s2 where "s2 =
     (if c \<noteq> 0 then
        s\<lparr>board := b,
          score := score s + (case scores c of None \<Rightarrow> 0 | Some v \<Rightarrow> v) * level s,
          lines := lines s + c,
          level := 1 + (lines s + c) div 10\<rparr>
      else s\<lparr>board := b\<rparr>)"
  have s2: "board s2 = b" "current s2 = current s" "level s2 = 1 + lines s2 div 10"
    using l by (simp_all add: s2_def)
  have "s' = s2\<lparr>game_over := True\<rparr> \<or> spawn_new s2 = Some s'"
    using assms(2) unfolding lock_and_clear_unfold [OF lk] s2_def [symmetric]
    by (auto simp: Let_def split: option.splits if_splits)
  then show ?thesis
  proof
    assume "s' = s2\<lparr>game_over := True\<rparr>"
    with s2 b pi piece_inv_width [OF wb] show ?thesis by (simp add: engine_inv_def)
  next
    assume "spawn_new s2 = Some s'"
    from spawn_new_inv [OF _ _ this] s2 b show ?thesis by simp
  qed
qed

lemma soft_drop_inv:
  assumes "engine_inv s" and "soft_drop s = Some s'"
  shows "engine_inv s'"
proof -
  from assms(2) obtain moved s1 where tm: "try_move s 0 1 = Some (moved, s1)"
    by (auto simp: soft_drop_def split: option.splits)
  note i1 = try_move_inv [OF assms(1) tm]
  show ?thesis
  proof (cases moved)
    case True
    with assms(2) tm have "s' = s1\<lparr>score := score s1 + 1\<rparr>" by (simp add: soft_drop_def)
    with i1 show ?thesis by (simp add: engine_inv_def)
  next
    case False
    with assms(2) tm have "lock_and_clear s1 = Some s'" by (simp add: soft_drop_def)
    from lock_and_clear_inv [OF i1 this] show ?thesis .
  qed
qed

lemma hard_drop_loop_inv:
  "engine_inv s \<Longrightarrow> hard_drop_loop s d = Some (s', d') \<Longrightarrow> engine_inv s'"
proof (induction s d rule: hard_drop_loop.induct)
  case (1 s d)
  from "1.prems"(2) obtain moved s1 where tm: "try_move s 0 1 = Some (moved, s1)"
    by (subst (asm) hard_drop_loop.simps) (auto split: option.splits)
  note i1 = try_move_inv [OF "1.prems"(1) tm]
  show ?case
  proof (cases moved)
    case True
    with "1.prems"(2) tm have "hard_drop_loop s1 (d + 1) = Some (s', d')"
      by (subst (asm) hard_drop_loop.simps) simp
    from "1.IH" [OF tm refl True i1 this] show ?thesis .
  next
    case False
    with "1.prems"(2) tm have "s' = s1"
      by (subst (asm) hard_drop_loop.simps) simp
    with i1 show ?thesis by simp
  qed
qed

lemma hard_drop_inv:
  assumes "engine_inv s" and "hard_drop s = Some s'"
  shows "engine_inv s'"
proof -
  from assms(2) obtain s1 d where l: "hard_drop_loop s 0 = Some (s1, d)"
    and lc: "lock_and_clear (s1\<lparr>score := score s1 + 2 * d\<rparr>) = Some s'"
    by (auto simp: hard_drop_def split: option.splits)
  from hard_drop_loop_inv [OF assms(1) l] have "engine_inv (s1\<lparr>score := score s1 + 2 * d\<rparr>)"
    by (simp add: engine_inv_def)
  from lock_and_clear_inv [OF this lc] show ?thesis .
qed

lemma tick_inv:
  assumes "engine_inv s" and "tick rnd s dt = Some s'"
  shows "engine_inv s'"
proof (cases "game_over s \<or> paused s")
  case True
  with assms show ?thesis by (simp add: tick_def)
next
  case False
  let ?s1 = "s\<lparr>gravity_timer := rnd (gravity_timer s + dt)\<rparr>"
  let ?s2 = "s\<lparr>gravity_timer := 0\<rparr>"
  have i: "engine_inv ?s1" "engine_inv ?s2" using assms(1) by (simp_all add: engine_inv_def)
  show ?thesis
  proof (cases "gravity_timer ?s1 \<ge> fall_speed rnd ?s1")
    case no: False
    with False assms(2) have "s' = ?s1" by (simp add: tick_def Let_def)
    with i show ?thesis by simp
  next
    case True
    with False assms(2) obtain moved s3 where tm: "try_move ?s2 0 1 = Some (moved, s3)"
      and r: "(if \<not> moved then lock_and_clear s3 else Some s3) = Some s'"
      by (auto simp: tick_def Let_def split: option.splits)
    note i3 = try_move_inv [OF i(2) tm]
    show ?thesis
    proof (cases moved)
      case True
      with r i3 show ?thesis by simp
    next
      case False
      with r lock_and_clear_inv [OF i3] show ?thesis by simp
    qed
  qed
qed

lemma Game_inv: "Game g = Some s \<Longrightarrow> engine_inv s"
proof -
  assume "Game g = Some s"
  then have s: "s = \<lparr>board = Board GRID_W GRID_H, bag = sdrop 7 g,
      next_queue = [g !! 1, g !! 2, g !! 3, g !! 4, g !! 6], current = Piece (g !! 0),
      hold = None, hold_used = False, score = 0, level = 1, lines = 0,
      drop_cooldown = 0.5, gravity_timer = 0, game_over = False, paused = False\<rparr>"
    by (simp add: Game_result)
  have "board_inv (Board GRID_W GRID_H)"
    unfolding board_inv_def by (intro conjI; code_simp)
  moreover have "piece_inv (Board GRID_W GRID_H) (Piece (g !! 0))"
    by (rule piece_inv_spawn) (simp add: Board_def)
  ultimately show ?thesis by (simp add: s engine_inv_def)
qed

lemma reachable_invariant: "s \<in> reachable \<Longrightarrow> engine_inv s"
proof (induction rule: reachable.induct)
  case (start g s)
  then show ?case by (rule Game_inv)
next
  case (move s dx dy moved s')
  then show ?case by (blast intro: try_move_inv)
next
  case (turn s dir s')
  then show ?case by (blast intro: rotate_inv)
next
  case (soft s s')
  then show ?case by (blast intro: soft_drop_inv)
next
  case (hard s s')
  then show ?case by (blast intro: hard_drop_inv)
next
  case (held s s')
  then show ?case by (blast intro: hold_piece_inv)
next
  case (time s dt s')
  then show ?case by (blast intro: tick_inv)
next
  case (pause s)
  then show ?case by (simp add: engine_inv_def)
next
  case (score_reset s)
  then show ?case by (simp add: engine_inv_def)
qed

text \<open>
  In particular the hypotheses under which the claims below are proved hold whenever the
  engine itself calls \<open>lock\<close>, \<open>rotate\<close> or \<open>hard_drop\<close>.
\<close>

lemma reachable_lock_preconditions:
  assumes "s \<in> reachable"
  shows "wf_board (board s) \<and> no_full_row (board s)
       \<and> (\<exists>cs. cells (current s) None None None = Some cs \<and> in_columns (board s) cs)"
proof -
  from reachable_invariant [OF assms] have
    b: "wf_board (board s)" "no_full_row (board s)"
    and p: "case cells (current s) None None None of
              None \<Rightarrow> False | Some cs \<Rightarrow> in_all_columns (board s) cs"
    by (simp_all add: engine_inv_def board_inv_def piece_inv_def)
  from p obtain cs where cs: "cells (current s) None None None = Some cs"
    "in_all_columns (board s) cs" by (auto split: option.splits)
  from cs(2) have "in_columns (board s) cs"
    by (auto simp: in_columns_def in_all_columns_def list_all_iff)
  with b cs(1) show ?thesis by blast
qed

lemma reachable_well_formed:
  "s \<in> reachable \<Longrightarrow> wf_board (board s) \<and> rot (current s) \<in> {0, 1, 2, 3}"
  by (drule reachable_invariant) (simp add: engine_inv_def board_inv_def piece_inv_def)

lemma reachable_drop_preconditions:
  "s \<in> reachable \<Longrightarrow>
   wf_board (board s) \<and> 0 < h (board s) \<and> piece_inv (board s) (current s)"
  by (drule reachable_invariant) (simp add: engine_inv_def board_inv_def GRID_H_def)

lemma reachable_level: "s \<in> reachable \<Longrightarrow> level s = 1 + lines s div 10"
  by (drule reachable_invariant) (simp add: engine_inv_def)

section \<open>Claim C1: lock writes the piece and clears the full rows\<close>

text \<open>
  Claim C1, as amended. For every board of the constructor's shape that has no fully occupied
  row, and every piece whose cells with y in [0, height) lie in the columns [0, width),
  \<open>lock\<close> returns the board in which first exactly those cells hold the piece's kind
  (\<open>written\<close>) and then every fully occupied row is removed, the remaining rows keep their
  order and as many empty rows stand on top (\<open>remove_and_prepend\<close>); it returns the number
  of rows removed, which is at most 4; and the board it leaves has no fully occupied row.
\<close>

theorem lock_writes_then_clears:
  assumes wf: "wf_board b" and nf: "no_full_row b"
    and cs: "cells p None None None = Some cs" and cols: "in_columns b cs"
  shows "lock b p = Some (b\<lparr>grid := remove_and_prepend (w b) (written b (kind p) cs)\<rparr>,
                          int (length (filter is_full (written b (kind p) cs))))
       \<and> length (filter is_full (written b (kind p) cs)) \<le> 4
       \<and> no_full_row (b\<lparr>grid := remove_and_prepend (w b) (written b (kind p) cs)\<rparr>)"
proof -
  let ?W = "written b (kind p) cs"
  have lc: "lock_cells (h b) (kind p) (grid b) cs = Some ?W"
    unfolding written_def using wf cols
    by (intro lock_cells_written) (auto simp: wf_board_def in_columns_def list_all_iff)
  have lk: "lock b p = Some (b\<lparr>grid := remove_and_prepend (w b) ?W\<rparr>,
                             int (length (filter is_full ?W)))"
    by (simp add: lock_def cs lc Let_def clear_rows_full_rows length_full_rows)
  have "filter is_full (grid b) = []"
    using nf by (auto simp: no_full_row_def list_all_iff filter_empty_conv)
  with lock_cells_full_count [OF lc] cells_length [OF cs]
  have n4: "length (filter is_full ?W) \<le> 4" by simp
  have "\<not> is_full (replicate (nat (w b)) None)" if "filter is_full ?W \<noteq> []"
  proof -
    from that have "?W \<noteq> []" by auto
    then have "0 < nat (h b)" by (auto simp: written_def)
    with wf obtain row where "row \<in> set (grid b)" "length row = nat (w b)"
      by (cases "grid b") (auto simp: wf_board_def)
    with nf have "0 < nat (w b)"
      by (cases row) (auto simp: no_full_row_def list_all_iff is_full_def)
    then show ?thesis by (cases "nat (w b)") (auto simp: is_full_def)
  qed
  then have "no_full_row (b\<lparr>grid := remove_and_prepend (w b) ?W\<rparr>)"
    by (auto simp: no_full_row_def remove_and_prepend_def list_all_iff)
  with lk n4 show ?thesis by simp
qed

text \<open>
  The theorem at a concrete input: the flat I piece completes the bottom row of
  \<open>almost_full_board\<close>; the lock removes that row, returns 1 and leaves the empty board.
\<close>

lemma lock_completes_bottom_row:
  "lock almost_full_board flat_I_row18 = Some (Board 10 20, 1)"
  by code_simp

theorem lock_writes_then_clears_witness:
  "wf_board almost_full_board \<and> no_full_row almost_full_board
   \<and> cells flat_I_row18 None None None = Some [(3, 19), (4, 19), (5, 19), (6, 19)]
   \<and> in_columns almost_full_board [(3, 19), (4, 19), (5, 19), (6, 19)]
   \<and> lock almost_full_board flat_I_row18 =
       Some (almost_full_board\<lparr>grid := remove_and_prepend (w almost_full_board)
               (written almost_full_board (kind flat_I_row18) [(3, 19), (4, 19), (5, 19), (6, 19)])\<rparr>,
             int (length (filter is_full
               (written almost_full_board (kind flat_I_row18) [(3, 19), (4, 19), (5, 19), (6, 19)]))))
   \<and> length (filter is_full
        (written almost_full_board (kind flat_I_row18) [(3, 19), (4, 19), (5, 19), (6, 19)])) \<le> 4
   \<and> no_full_row (almost_full_board\<lparr>grid := remove_and_prepend (w almost_full_board)
        (written almost_full_board (kind flat_I_row18) [(3, 19), (4, 19), (5, 19), (6, 19)])\<rparr>)"
proof -
  have h1: "wf_board almost_full_board" by code_simp
  have h2: "no_full_row almost_full_board" by code_simp
  have h3: "cells flat_I_row18 None None None = Some [(3, 19), (4, 19), (5, 19), (6, 19)]"
    by code_simp
  have h4: "in_columns almost_full_board [(3, 19), (4, 19), (5, 19), (6, 19)]" by code_simp
  from lock_writes_then_clears [OF h1 h2 h3 h4] h1 h2 h3 h4 show ?thesis by blast
qed

text \<open>
  Claim C1 as it is written, for every board and every piece, fails at three inputs.
  On a board with five full rows the lock of a T piece at the spawn position returns 5.
  An I piece at x = 7 has a cell in column 10 of a board 10 wide, and the lock raises
  IndexError. An I piece at x = -1 has a cell in column -1, and the lock writes column 9
  of row 1, which is no cell of the piece.
\<close>

theorem lock_every_board_counterexample:
  "cleared_by_lock five_full_board (Piece KT) = Some 5
   \<and> lock (Board 10 20) ((Piece KI)\<lparr>x := 7\<rparr>) = None
   \<and> cells ((Piece KI)\<lparr>x := - 1\<rparr>) None None None = Some [(- 1, 1), (0, 1), (1, 1), (2, 1)]
   \<and> cell_after_lock (Board 10 20) ((Piece KI)\<lparr>x := - 1\<rparr>) 1 9 = Some (Some KI)"
  by code_simp

section \<open>Claim C2: a second hold before any lock\<close>

lemma hold_new_game: "hold_piece new_game = Some held_once"
proof -
  have "hold_piece new_game = spawn_new (new_game\<lparr>hold_used := True, hold := Some KJ\<rparr>)"
    by (simp add: hold_piece_def new_game_def Let_def Piece_def)
  also have "\<dots> = Some held_once"
    by (subst spawn_new_free [where k = KL and q = "[KO, KS, KT, KI]"])
       (simp_all add: new_game_def held_once_def spawn_free_on_empty_board turned_bag_draws)
  finally show ?thesis .
qed

lemma hold_held_once: "hold_piece held_once = Some held_twice"
proof -
  have p: "(Piece KJ)\<lparr>x := 3, y := 0, rot := 0\<rparr> = Piece KJ" by (simp add: Piece_def)
  have f: "\<not> game_over held_once" "\<not> paused held_once" "\<not> hold_used held_once"
    "hold held_once = Some KJ" "kind (current held_once) = KL"
    "board held_once = Board GRID_W GRID_H"
    by (simp_all add: held_once_def new_game_def Piece_def)
  show ?thesis
    by (simp add: hold_piece_def Let_def f p spawn_free_on_empty_board held_twice_def)
qed

text \<open>
  Where the hold is taken by a swap, the flag \<open>hold_used\<close> is set and stays set, and a
  second call of \<open>hold_piece\<close> returns the state as it is.
\<close>

lemma used_hold_is_blocked: "hold_used s \<Longrightarrow> hold_piece s = Some s"
  by (simp add: hold_piece_def)

lemma swap_sets_hold_used:
  assumes "hold s = Some held" and "hold_piece s = Some s'"
    and "\<not> game_over s" and "\<not> paused s" and "\<not> hold_used s"
  shows "hold_used s'"
  using assms by (auto simp: hold_piece_def Let_def split: option.splits if_splits)

text \<open>
  Claim C2 says that a second call of \<open>hold_piece\<close> with no lock since the spawn changes
  nothing. The source breaks it when nothing is held yet: \<open>hold_piece\<close> sets \<open>hold_used\<close> and
  then calls \<open>spawn_new\<close>, which resets it. In the engine that the constructor builds from
  \<open>turned_bag\<close> the first call holds J and spawns L with \<open>hold_used\<close> false, and the second
  call swaps again: it holds L and makes J current.
\<close>

theorem second_hold_swaps_again:
  "Game turned_bag = Some new_game \<and> hold_piece new_game = Some held_once
   \<and> hold_piece held_once = Some held_twice
   \<and> hold held_once = Some KJ \<and> kind (current held_once) = KL \<and> \<not> hold_used held_once
   \<and> hold held_twice = Some KL \<and> kind (current held_twice) = KJ \<and> hold_used held_twice"
  by (simp add: Game_turned_bag hold_new_game hold_held_once)
     (simp add: held_twice_def held_once_def new_game_def Piece_def)

section \<open>Claim C3: top-out\<close>

text \<open>
  Claim C3, as amended. For every board of the constructor's shape with at least one row,
  \<open>top_out\<close> returns true if and only if some cell of row 0 is occupied. (The test
  \<open>any(... for y in range(0,2))\<close> of the source stands behind the test of row 0 in the
  same column and is true whenever it is reached, so row 1 plays no part.)
\<close>

theorem top_out_iff_row0_occupied:
  assumes "wf_board b" and "0 < h b"
  shows "top_out b = Some (\<exists>c \<in> set (grid b ! 0). c \<noteq> None)"
proof -
  from assms have ne: "grid b \<noteq> []" by (auto simp: wf_board_def)
  then have "grid b ! 0 \<in> set (grid b)" by (cases "grid b") auto
  with assms have len: "length (grid b ! 0) = nat (w b)"
    by (auto simp: wf_board_def list_all_iff)
  have "top_out b = Some (\<exists>cx \<in> set (map int [0..<nat (w b)]). grid b ! 0 ! nat cx \<noteq> None)"
    unfolding top_out_def using ne len by (intro top_out_cols_row0) auto
  also have "(\<exists>cx \<in> set (map int [0..<nat (w b)]). grid b ! 0 ! nat cx \<noteq> None)
             \<longleftrightarrow> (\<exists>c \<in> set (grid b ! 0). c \<noteq> None)"
    using len by (fastforce simp: in_set_conv_nth)
  finally show ?thesis .
qed

text \<open>The theorem on the board whose only occupied cell is in row 0: top-out is true.\<close>

theorem top_out_iff_row0_occupied_witness:
  "wf_board row0_board \<and> 0 < h row0_board \<and> top_out row0_board = Some True"
proof -
  have h1: "wf_board row0_board" by code_simp
  have h2: "0 < h row0_board" by code_simp
  have "Some KT \<in> set (grid row0_board ! 0)" by code_simp
  then have "\<exists>c \<in> set (grid row0_board ! 0). c \<noteq> None" by blast
  with top_out_iff_row0_occupied [OF h1 h2] h1 h2 show ?thesis by simp
qed

text \<open>
  Claim C3 as it is written fails on the board whose only occupied cell is in row 1, one
  of the two topmost rows: \<open>top_out\<close> returns false there.
\<close>

theorem top_out_two_rows_counterexample:
  "grid_at (grid row1_board) 1 4 = Some (Some KT) \<and> top_out row1_board = Some False"
  by code_simp

section \<open>Claim C4: actions after game over\<close>

text \<open>
  \<open>try_move\<close> tests the game-over flag first and refuses the move.
\<close>

lemma try_move_after_game_over: "game_over s \<Longrightarrow> try_move s dx dy = Some (False, s)"
  by (simp add: try_move_def)

lemma stack_facts:
  "cells (Piece KT) None None None \<bind> collides stack_board = Some True"
  "lock stack_board (Piece KT) = Some (stack_board_locked, 0)"
  "top_out stack_board_locked = Some True"
  "grid_at (grid stack_board) 0 4 = Some None"
  "grid_at (grid stack_board_locked) 0 4 = Some (Some KT)"
  by code_simp+

lemma hold_stacked_game: "hold_piece stacked_game = Some over_game"
proof -
  have p: "(Piece KT)\<lparr>x := 3, y := 0, rot := 0\<rparr> = Piece KT" by (simp add: Piece_def)
  have f: "\<not> game_over stacked_game" "\<not> paused stacked_game" "\<not> hold_used stacked_game"
    "hold stacked_game = Some KT" "kind (current stacked_game) = KI"
    "board stacked_game = stack_board"
    by (simp_all add: stacked_game_def game_with_def Piece_def)
  show ?thesis
    by (simp add: hold_piece_def Let_def f p stack_facts over_game_def)
qed

lemma over_game_facts:
  "game_over over_game" "board over_game = stack_board" "current over_game = Piece KT"
  "score over_game = 0"
  by (simp_all add: over_game_def stacked_game_def game_with_def)

lemma lock_and_clear_over_game: "lock_and_clear over_game = Some over_game_locked"
proof -
  have l: "lock (board over_game) (current over_game) = Some (stack_board_locked, 0)"
    by (simp add: over_game_facts stack_facts)
  have "over_game\<lparr>board := stack_board_locked, game_over := True\<rparr> = over_game_locked"
    by (simp add: over_game_locked_def over_game_def)
  then show ?thesis
    by (simp add: lock_and_clear_unfold [OF l] stack_facts)
qed

text \<open>
  Claim C4, as amended. For every engine state in which the game-over flag is set, every
  call of \<open>try_move\<close>, \<open>rotate\<close>, \<open>hold_piece\<close> or \<open>tick\<close> (with any arguments, and any
  rounding of the floats) returns the state as it is: board, current piece, score, lines,
  level, held kind, queue and all the rest. \<open>soft_drop\<close> and \<open>hard_drop\<close> are not among
  them. They have no test of the flag (the frame loop does not call them once it is set):
  \<open>try_move\<close> refuses the move, both take the refusal for a landed piece, and each is
  \<open>lock_and_clear\<close> of the state, the hard drop with a distance of 0.
\<close>

theorem game_over_stops_guarded_actions:
  assumes "game_over s"
  shows "try_move s dx dy = Some (False, s) \<and> rotate s dir = Some s
       \<and> hold_piece s = Some s \<and> tick rnd s dt = Some s
       \<and> soft_drop s = lock_and_clear s \<and> hard_drop s = lock_and_clear s"
proof -
  note tm = try_move_after_game_over [OF assms]
  have "hard_drop_loop s 0 = Some (s, 0)"
    by (subst hard_drop_loop.simps) (simp add: tm)
  then have "hard_drop s = lock_and_clear s"
    by (simp add: hard_drop_def)
  with assms tm show ?thesis
    by (simp add: rotate_def hold_piece_def tick_def soft_drop_def)
qed

text \<open>
  The theorem at a concrete input: \<open>over_game\<close>, the state in which a hold swap has set the
  game-over flag.
\<close>

theorem game_over_stops_guarded_actions_witness:
  "game_over over_game
   \<and> try_move over_game 0 1 = Some (False, over_game) \<and> rotate over_game 1 = Some over_game
   \<and> hold_piece over_game = Some over_game \<and> tick id over_game 1 = Some over_game
   \<and> soft_drop over_game = lock_and_clear over_game
   \<and> hard_drop over_game = lock_and_clear over_game"
  using game_over_stops_guarded_actions
          [where s = over_game and dx = 0 and dy = 1 and dir = 1 and rnd = id and dt = 1]
        over_game_facts(1)
  by simp

text \<open>
  Claim C4 as it stands says that after game over every action, \<open>soft_drop\<close> and
  \<open>hard_drop\<close> among them, changes nothing. In \<open>stacked_game\<close> the hold swaps in a T piece
  that collides at the spawn position, which sets the game-over flag; a \<open>soft_drop\<close> or a
  \<open>hard_drop\<close> after that writes the T piece into the board, where the cell in row 0 and
  column 4 was empty.
\<close>

theorem drops_lock_after_game_over:
  "hold_piece stacked_game = Some over_game \<and> game_over over_game
   \<and> soft_drop over_game = Some over_game_locked
   \<and> hard_drop over_game = Some over_game_locked
   \<and> grid_at (grid (board over_game)) 0 4 = Some None
   \<and> grid_at (grid (board over_game_locked)) 0 4 = Some (Some KT)"
proof -
  have tm: "try_move over_game 0 1 = Some (False, over_game)"
    by (rule try_move_after_game_over) (rule over_game_facts)
  have sd: "soft_drop over_game = Some over_game_locked"
    by (simp add: soft_drop_def tm lock_and_clear_over_game)
  have "hard_drop_loop over_game 0 = Some (over_game, 0)"
    by (subst hard_drop_loop.simps) (simp add: tm)
  then have hd: "hard_drop over_game = Some over_game_locked"
    by (simp add: hard_drop_def lock_and_clear_over_game)
  have "board over_game_locked = stack_board_locked"
    by (simp add: over_game_locked_def)
  with sd hd hold_stacked_game over_game_facts stack_facts show ?thesis by simp
qed

section \<open>Claim C5: the order of the spawn nudges\<close>

lemma nudge_dx_find:
  assumes "wf_board b" and "0 \<le> rot p" and "rot p < 4"
  shows "nudge_dx b p dy dxs =
           Some (map_option (nudged p) (find (nudge_fits b p) (map (\<lambda>dx. (dx, dy)) dxs)))"
proof (induction dxs)
  case Nil
  then show ?case by simp
next
  case (Cons dx dxs)
  from cells_total_own [OF assms(2,3), where xo = "Some (x p + dx)" and yo = "Some (y p + dy)"]
  obtain cs where "cells p (Some (x p + dx)) (Some (y p + dy)) None = Some cs" by blast
  from probe_total [OF assms(1) this] obtain c where
    c: "cells p (Some (x p + dx)) (Some (y p + dy)) None \<bind> collides b = Some c" by blast
  show ?case
  proof (cases c)
    case True
    with c Cons show ?thesis by (simp add: nudge_fits_def)
  next
    case False
    with c show ?thesis by (simp add: nudge_fits_def nudged_def)
  qed
qed

lemma find_app:
  "find P (xs @ ys) = (case find P xs of None \<Rightarrow> find P ys | Some v \<Rightarrow> Some v)"
  by (induction xs) simp_all

lemma nudge_dy_find:
  assumes "wf_board b" and "0 \<le> rot p" and "rot p < 4"
  shows "nudge_dy b p dys =
           Some (map_option (nudged p)
                  (find (nudge_fits b p) (concat (map (\<lambda>dy. map (\<lambda>dx. (dx, dy)) [0, - 1, 1]) dys))))"
proof (induction dys)
  case Nil
  then show ?case by simp
next
  case (Cons dy dys)
  let ?row = "\<lambda>dy. map (\<lambda>dx. (dx, dy)) [0, - 1, 1]"
  have e: "concat (map ?row (dy # dys)) = ?row dy @ concat (map ?row dys)"
    by (simp only: list.map concat.simps)
  have step: "nudge_dy b p (dy # dys) =
      (case nudge_dx b p dy [0, - 1, 1] of
         None \<Rightarrow> None
       | Some (Some p') \<Rightarrow> Some (Some p')
       | Some None \<Rightarrow> nudge_dy b p dys)"
    by (simp only: nudge_dy.simps)
  note dx = nudge_dx_find [OF assms, of dy "[0, - 1, 1]"]
  show ?case
  proof (cases "find (nudge_fits b p) (?row dy)")
    case None
    then show ?thesis
      unfolding step e find_app dx by (simp only: option.case option.map Cons.IH)
  next
    case (Some off)
    then show ?thesis
      unfolding step e find_app dx by (simp only: option.case option.map)
  qed
qed

text \<open>
  Claim C5, as amended. For every spawn in which the new piece's cells collide at the
  spawn position (on a board of the constructor's shape), \<open>spawn_new\<close> probes the offsets
  (dx, dy) in the order (0,0), (-1,0), (1,0), (0,-1), (-1,-1), (1,-1), (0,1), (-1,1), (1,1),
  moves the piece by the first offset whose translated cells do not collide, and sets the
  game-over flag, leaving the piece at the spawn position, when all nine collide.
\<close>

theorem spawn_nudge_order:
  assumes wf: "wf_board (board s)" and d: "spawn_draw s = (k, q, g)"
    and col: "cells (Piece k) None None None \<bind> collides (board s) = Some True"
  shows "spawn_new s =
     Some (case find (nudge_fits (board s) (Piece k)) source_nudges of
             Some off \<Rightarrow>
               s\<lparr>next_queue := q @ [shd g], bag := stl g, hold_used := False,
                 current := nudged (Piece k) off\<rparr>
           | None \<Rightarrow>
               s\<lparr>current := Piece k, next_queue := q @ [shd g], bag := stl g,
                 hold_used := False, game_over := True\<rparr>)"
proof -
  have r: "0 \<le> rot (Piece k)" "rot (Piece k) < 4" by (simp_all add: Piece_def)
  have l: "concat (map (\<lambda>dy. map (\<lambda>dx. (dx, dy)) [0, - 1, 1]) [0, - 1, 1]) = source_nudges"
    by (simp add: source_nudges_def)
  have n: "nudge_dy (board s) (Piece k) [0, - 1, 1] =
      Some (map_option (nudged (Piece k)) (find (nudge_fits (board s) (Piece k)) source_nudges))"
    using nudge_dy_find [OF wf r, of "[0, - 1, 1]"] by (simp only: l)
  show ?thesis
  proof (cases "find (nudge_fits (board s) (Piece k)) source_nudges")
    case None
    with n col show ?thesis by (simp add: spawn_new_unfold [OF d])
  next
    case (Some off)
    with n col show ?thesis by (simp add: spawn_new_unfold [OF d])
  qed
qed

text \<open>
  The theorem at a concrete input: the O piece collides at its spawn position with the
  cell in row 1 and column 5, and it is moved one column to the left.
\<close>

lemma blocked_O_facts:
  "wf_board (board blocked_O_game)"
  "cells (Piece KO) None None None \<bind> collides (board blocked_O_game) = Some True"
  "find (nudge_fits (board blocked_O_game) (Piece KO)) source_nudges = Some (- 1, 0)"
  "find (nudge_fits (board blocked_O_game) (Piece KO)) spec_nudges = Some (0, - 1)"
  "nudge_dy (board blocked_O_game) (Piece KO) [0, - 1, 1] = Some (Some (nudged (Piece KO) (- 1, 0)))"
  unfolding blocked_O_game_def game_with_def by (simp_all, code_simp+)

theorem spawn_nudge_order_witness:
  "wf_board (board blocked_O_game)
   \<and> spawn_draw blocked_O_game = (KO, [KS, KT, KZ, KI], bag blocked_O_game)
   \<and> cells (Piece KO) None None None \<bind> collides (board blocked_O_game) = Some True
   \<and> spawn_new blocked_O_game =
       Some (blocked_O_game\<lparr>next_queue := [KS, KT, KZ, KI] @ [shd (bag blocked_O_game)],
               bag := stl (bag blocked_O_game), hold_used := False,
               current := nudged (Piece KO) (- 1, 0)\<rparr>)"
proof -
  have d: "spawn_draw blocked_O_game = (KO, [KS, KT, KZ, KI], bag blocked_O_game)"
    by (simp add: spawn_draw_def blocked_O_game_def game_with_def)
  from spawn_nudge_order [OF blocked_O_facts(1) d blocked_O_facts(2)] blocked_O_facts(3)
  have "spawn_new blocked_O_game =
       Some (blocked_O_game\<lparr>next_queue := [KS, KT, KZ, KI] @ [shd (bag blocked_O_game)],
               bag := stl (bag blocked_O_game), hold_used := False,
               current := nudged (Piece KO) (- 1, 0)\<rparr>)"
    by (simp only: option.case)
  with blocked_O_facts(1,2) d show ?thesis by blast
qed

text \<open>
  Claim C5 as it is written fails under both readings of its list. Read as (dx, dy), the
  list has (0, -1) in second place: in \<open>blocked_O_game\<close> that offset is the first of the
  list that fits, and \<open>spawn_new\<close> moves the piece by (-1, 0). Read as (dy, dx), the list
  has dx = 1 before dx = -1 in the rows dy = -1 and dy = 1: in \<open>blocked_J_game\<close> the first
  offset of that list that fits is (dx, dy) = (1, 1), and \<open>spawn_new\<close> moves the piece by
  (-1, 1).
\<close>

lemma blocked_J_facts:
  "cells (Piece KJ) None None None \<bind> collides (board blocked_J_game) = Some True"
  "find (nudge_fits (board blocked_J_game) (Piece KJ)) spec_nudges_dy_first = Some (1, 1)"
  "nudge_dy (board blocked_J_game) (Piece KJ) [0, - 1, 1] = Some (Some (nudged (Piece KJ) (- 1, 1)))"
  unfolding blocked_J_game_def game_with_def by (simp_all, code_simp+)

theorem spawn_nudge_order_counterexample:
  "map_option current (spawn_new blocked_O_game) = Some (nudged (Piece KO) (- 1, 0))
   \<and> find (nudge_fits (board blocked_O_game) (Piece KO)) spec_nudges = Some (0, - 1)
   \<and> map_option current (spawn_new blocked_J_game) = Some (nudged (Piece KJ) (- 1, 1))
   \<and> find (nudge_fits (board blocked_J_game) (Piece KJ)) spec_nudges_dy_first = Some (1, 1)"
proof -
  have dO: "spawn_draw blocked_O_game = (KO, [KS, KT, KZ, KI], bag blocked_O_game)"
    by (simp add: spawn_draw_def blocked_O_game_def game_with_def)
  have dJ: "spawn_draw blocked_J_game = (KJ, [KL, KO, KS, KT], bag blocked_J_game)"
    by (simp add: spawn_draw_def blocked_J_game_def game_with_def)
  have "map_option current (spawn_new blocked_O_game) = Some (nudged (Piece KO) (- 1, 0))"
    by (simp add: spawn_new_unfold [OF dO] blocked_O_facts del: nudge_dy.simps)
  moreover have "map_option current (spawn_new blocked_J_game) = Some (nudged (Piece KJ) (- 1, 1))"
    by (simp add: spawn_new_unfold [OF dJ] blocked_J_facts del: nudge_dy.simps)
  ultimately show ?thesis using blocked_O_facts(4) blocked_J_facts(2) by blast
qed

section \<open>Claim C6: every block of seven draws is a permutation of the kinds\<close>

lemma bag_loop_rest:
  "stake (length rest) (bag_loop sh r ps rest) = rest \<and>
   sdrop (length rest) (bag_loop sh r ps rest) = bag_loop sh r ps []"
  by (induction rest) simp_all

lemma bag_loop_shuffle:
  assumes "fst (sh r ps) \<noteq> []"
  shows "bag_loop sh r ps [] = bag_loop sh (snd (sh r ps)) (fst (sh r ps)) (fst (sh r ps))"
proof -
  from assms obtain p ps' where e: "fst (sh r ps) = p # ps'" by (cases "fst (sh r ps)") auto
  show ?thesis
    by (rule stream.expand) (simp add: e)
qed

lemma bag_block:
  assumes perm: "\<forall>r xs. mset (fst (sh r xs)) = mset xs" and ps: "mset ps = mset all_kinds"
  shows "stake 7 (bag_loop sh r ps []) = fst (sh r ps)"
    and "sdrop 7 (bag_loop sh r ps []) = bag_loop sh (snd (sh r ps)) (fst (sh r ps)) []"
    and "mset (fst (sh r ps)) = mset all_kinds"
proof -
  let ?ps' = "fst (sh r ps)"
  from perm ps show m: "mset ?ps' = mset all_kinds" by simp
  then have "size (mset ?ps') = size (mset all_kinds)" by simp
  then have len: "length ?ps' = 7" by (simp add: all_kinds_def)
  then have ne: "?ps' \<noteq> []" by auto
  from bag_loop_rest [of ?ps' sh "snd (sh r ps)" ?ps'] len
    bag_loop_shuffle [of sh r ps, OF ne]
  show "stake 7 (bag_loop sh r ps []) = ?ps'"
    and "sdrop 7 (bag_loop sh r ps []) = bag_loop sh (snd (sh r ps)) ?ps' []"
    by simp_all
qed

lemma bag_after_blocks:
  assumes perm: "\<forall>r xs. mset (fst (sh r xs)) = mset xs"
  shows "\<exists>r' ps. mset ps = mset all_kinds \<and>
           sdrop (7 * i) (bag_generator sh r) = bag_loop sh r' ps []"
proof (induction i)
  case 0
  show ?case by (auto simp: bag_generator_def)
next
  case (Suc i)
  then obtain r' ps where ps: "mset ps = mset all_kinds"
    and d: "sdrop (7 * i) (bag_generator sh r) = bag_loop sh r' ps []" by blast
  have "sdrop (7 * Suc i) (bag_generator sh r) = sdrop 7 (sdrop (7 * i) (bag_generator sh r))"
    by (simp add: add.commute)
  also have "\<dots> = bag_loop sh (snd (sh r' ps)) (fst (sh r' ps)) []"
    using bag_block(2) [OF perm ps] d by simp
  finally show ?case using bag_block(3) [OF perm ps] by blast
qed

text \<open>
  Claim C6. When \<open>random.shuffle\<close> returns a permutation of the list it is given, then for
  every \<open>i\<close> the seven kinds the bag yields at the indices from \<open>7 * i\<close> on are a
  permutation of the seven kinds: they have no repetition and they are all the kinds.
\<close>

theorem bag_blocks_are_permutations:
  assumes "\<forall>r xs. mset (fst (shuffle r xs)) = mset xs"
  shows "mset (stake 7 (sdrop (7 * i) (bag_generator shuffle r))) = mset all_kinds
       \<and> distinct (stake 7 (sdrop (7 * i) (bag_generator shuffle r)))
       \<and> set (stake 7 (sdrop (7 * i) (bag_generator shuffle r))) = UNIV"
proof -
  from bag_after_blocks [OF assms] obtain r' ps where ps: "mset ps = mset all_kinds"
    and d: "sdrop (7 * i) (bag_generator shuffle r) = bag_loop shuffle r' ps []" by blast
  let ?blk = "stake 7 (sdrop (7 * i) (bag_generator shuffle r))"
  from bag_block(1,3) [OF assms ps] d have m: "mset ?blk = mset all_kinds" by simp
  have "distinct all_kinds" by (simp add: all_kinds_def)
  with m have dist: "distinct ?blk" by (metis mset_eq_imp_distinct_iff)
  have "set all_kinds = UNIV"
  proof -
    have "k \<in> set all_kinds" for k by (cases k) (simp_all add: all_kinds_def)
    then show ?thesis by blast
  qed
  with m have "set ?blk = UNIV" by (metis mset_eq_setD)
  with m dist show ?thesis by simp
qed

text \<open>
  The theorem for a shuffle that moves the first element of the list to its end: the
  third block of seven draws.
\<close>

theorem bag_blocks_are_permutations_witness:
  "(\<forall>r xs. mset (fst (turn_shuffle r xs)) = mset xs)
   \<and> mset (stake 7 (sdrop (7 * 2) (bag_generator turn_shuffle 0))) = mset all_kinds
   \<and> distinct (stake 7 (sdrop (7 * 2) (bag_generator turn_shuffle 0)))
   \<and> set (stake 7 (sdrop (7 * 2) (bag_generator turn_shuffle 0))) = UNIV"
proof -
  have "mset (rotate1 xs) = mset xs" for xs :: "kind list"
    by (cases xs) simp_all
  then have h: "\<forall>r xs. mset (fst (turn_shuffle r xs)) = mset xs"
    by (simp add: turn_shuffle_def)
  from bag_blocks_are_permutations [OF h, of 2 0] h show ?thesis by blast
qed

section \<open>The engine: lock_and_clear returns\<close>

text \<open>
  On a board of the constructor's shape with at least one row, and for a piece whose cells
  lie in the columns of the board, none of the index expressions in \<open>lock\<close>, \<open>top_out\<close>
  and \<open>spawn_new\<close> raises: \<open>lock_and_clear\<close> returns a state, whose board is the one
  \<open>lock\<close> returns and whose counters are those of the scoring rule.
\<close>

lemma lock_result:
  assumes wf: "wf_board b" and cs: "cells p None None None = Some cs" and cols: "in_columns b cs"
  shows "lock b p = Some (b\<lparr>grid := remove_and_prepend (w b) (written b (kind p) cs)\<rparr>,
                          int (length (filter is_full (written b (kind p) cs))))"
proof -
  let ?W = "written b (kind p) cs"
  have lc: "lock_cells (h b) (kind p) (grid b) cs = Some ?W"
    unfolding written_def using wf cols
    by (intro lock_cells_written) (auto simp: wf_board_def in_columns_def list_all_iff)
  show ?thesis
    by (simp add: lock_def cs lc Let_def clear_rows_full_rows length_full_rows)
qed

lemma wf_board_locked:
  "wf_board (b\<lparr>grid := remove_and_prepend (w b) (written b k cs)\<rparr>)"
proof -
  let ?W = "written b k cs"
  have "length (remove_and_prepend (w b) ?W) = length ?W"
    by (simp add: remove_and_prepend_def sum_length_filter_compl)
  moreover have "length ?W = nat (h b)" by (simp add: written_def)
  moreover have "\<forall>row \<in> set ?W. length row = nat (w b)" by (auto simp: written_def)
  then have "\<forall>row \<in> set (remove_and_prepend (w b) ?W). length row = nat (w b)"
    by (auto simp: remove_and_prepend_def)
  ultimately show ?thesis by (simp add: wf_board_def list_all_iff)
qed

lemma top_out_total:
  assumes "wf_board b" and "0 < h b"
  shows "\<exists>t. top_out b = Some t"
proof -
  from assms have ne: "grid b \<noteq> []" by (auto simp: wf_board_def)
  then have "grid b ! 0 \<in> set (grid b)" by (cases "grid b") auto
  with assms have len: "length (grid b ! 0) = nat (w b)"
    by (auto simp: wf_board_def list_all_iff)
  have "top_out b = Some (\<exists>cx \<in> set (map int [0..<nat (w b)]). grid b ! 0 ! nat cx \<noteq> None)"
    unfolding top_out_def using ne len by (intro top_out_cols_row0) auto
  then show ?thesis by blast
qed

lemma spawn_new_total:
  assumes "wf_board (board s)"
  shows "\<exists>s'. spawn_new s = Some s'"
proof -
  obtain k q g where d: "spawn_draw s = (k, q, g)" by (cases "spawn_draw s")
  note u = spawn_new_unfold [OF d]
  have r: "0 \<le> rot (Piece k)" "rot (Piece k) < 4" by (simp_all add: Piece_def)
  from cells_total_own [OF r] obtain cs where "cells (Piece k) None None None = Some cs"
    by blast
  from probe_total [OF assms this] obtain c where
    c: "cells (Piece k) None None None \<bind> collides (board s) = Some c" by blast
  from nudge_dy_find [OF assms r] obtain r' where
    n: "nudge_dy (board s) (Piece k) [0, - 1, 1] = Some r'" by blast
  show ?thesis
  proof (cases c)
    case False
    with c u show ?thesis by simp
  next
    case True
    with c n u show ?thesis by (cases r') simp_all
  qed
qed

lemma scores_get: "(case scores c of None \<Rightarrow> 0 | Some v \<Rightarrow> v) = award c"
  by (simp add: scores_def award_def)

lemma lock_and_clear_result:
  assumes lk: "lock (board s) (current s) = Some (b, c)"
    and wf: "wf_board b" and hb: "0 < h b"
  shows "\<exists>s'. lock_and_clear s = Some s' \<and> board s' = b
           \<and> score s' = score s + award c * level s
           \<and> lines s' = lines s + c
           \<and> level s' = (if c \<noteq> 0 then 1 + (lines s + c) div 10 else level s)"
proof -
  define s2 where "s2 =
     (if c \<noteq> 0 then
        s\<lparr>board := b,
          score := score s + (case scores c of None \<Rightarrow> 0 | Some v \<Rightarrow> v) * level s,
          lines := lines s + c,
          level := 1 + (lines s + c) div 10\<rparr>
      else s\<lparr>board := b\<rparr>)"
  have a0: "award 0 = 0" by (simp add: award_def)
  have s2: "board s2 = b" "score s2 = score s + award c * level s" "lines s2 = lines s + c"
    "level s2 = (if c \<noteq> 0 then 1 + (lines s + c) div 10 else level s)"
    by (simp_all add: s2_def scores_get a0)
  from top_out_total [OF wf hb] obtain t where t: "top_out b = Some t" by blast
  have lc: "lock_and_clear s = (if t then Some (s2\<lparr>game_over := True\<rparr>) else spawn_new s2)"
    unfolding lock_and_clear_unfold [OF lk] s2_def [symmetric] by (simp add: t)
  show ?thesis
  proof (cases t)
    case True
    with lc s2 show ?thesis by simp
  next
    case False
    from spawn_new_total [of s2] wf s2(1) obtain s' where s': "spawn_new s2 = Some s'" by auto
    from spawn_new_counters [OF s'] s2 lc False s' show ?thesis by simp
  qed
qed

section \<open>Claim C7: scoring and level after a lock\<close>

text \<open>
  Claim C7. For every state whose board has the constructor's shape and at least one row,
  and whose current piece has its cells in the columns of the board (every state the engine
  reaches is one), \<open>lock\<close> returns a board \<open>b\<close> and a number \<open>c\<close> of cleared rows, the number
  of full rows after the piece is written, and \<open>lock_and_clear\<close> returns a state \<open>s'\<close> with
  that board. For \<open>c\<close> from 1 to 4 the score has grown by the table's award for \<open>c\<close> times
  the level before the lock, and the lines by \<open>c\<close>; for \<open>c = 0\<close> score, lines and level are
  as before; and \<open>level = 1 + lines div 10\<close> holds after the lock, whenever rows were
  cleared and also whenever it held before.
\<close>

theorem lock_and_clear_scoring:
  assumes wf: "wf_board (board s)" and hb: "0 < h (board s)"
    and cs: "cells (current s) None None None = Some cs" and cols: "in_columns (board s) cs"
  shows "\<exists>b c s'. lock (board s) (current s) = Some (b, c)
       \<and> c = int (length (filter is_full (written (board s) (kind (current s)) cs)))
       \<and> lock_and_clear s = Some s' \<and> board s' = b
       \<and> (c \<in> {1, 2, 3, 4} \<longrightarrow> score s' = score s + award c * level s \<and> lines s' = lines s + c)
       \<and> (c = 0 \<longrightarrow> score s' = score s \<and> lines s' = lines s \<and> level s' = level s)
       \<and> (c \<noteq> 0 \<or> level s = 1 + lines s div 10 \<longrightarrow> level s' = 1 + lines s' div 10)"
proof -
  let ?b = "(board s)\<lparr>grid := remove_and_prepend (w (board s))
                                  (written (board s) (kind (current s)) cs)\<rparr>"
  let ?c = "int (length (filter is_full (written (board s) (kind (current s)) cs)))"
  note lk = lock_result [OF wf cs cols]
  have "wf_board ?b" by (rule wf_board_locked)
  moreover have "0 < h ?b" using hb by simp
  ultimately obtain s' where s': "lock_and_clear s = Some s'" "board s' = ?b"
    "score s' = score s + award ?c * level s" "lines s' = lines s + ?c"
    "level s' = (if ?c \<noteq> 0 then 1 + (lines s + ?c) div 10 else level s)"
    using lock_and_clear_result [OF lk] by blast
  have a0: "award 0 = 0" by (simp add: award_def)
  have "(?c \<in> {1, 2, 3, 4} \<longrightarrow> score s' = score s + award ?c * level s \<and> lines s' = lines s + ?c)
       \<and> (?c = 0 \<longrightarrow> score s' = score s \<and> lines s' = lines s \<and> level s' = level s)
       \<and> (?c \<noteq> 0 \<or> level s = 1 + lines s div 10 \<longrightarrow> level s' = 1 + lines s' div 10)"
    using s'(3,4,5) a0 by simp
  with lk s'(1,2) show ?thesis by blast
qed

text \<open>
  The theorem at a concrete input: at level 1 the flat I piece completes the bottom row;
  the lock clears one row and the score grows by 100.
\<close>

lemma lock_one_line: "lock (board one_line_game) (current one_line_game) = Some (Board 10 20, 1)"
  using lock_completes_bottom_row by (simp add: one_line_game_def game_with_def)

lemma lock_and_clear_one_line: "lock_and_clear one_line_game = Some after_one_line"
proof -
  have b: "Board 10 20 = Board GRID_W GRID_H" by (simp add: GRID_W_def GRID_H_def)
  let ?s2 = "one_line_game\<lparr>board := Board 10 20, score := 100, lines := 1, level := 1\<rparr>"
  have f: "score one_line_game = 0" "lines one_line_game = 0" "level one_line_game = 1"
    by (simp_all add: one_line_game_def game_with_def)
  have "lock_and_clear one_line_game = spawn_new ?s2"
    by (simp add: lock_and_clear_unfold [OF lock_one_line] Let_def scores_def f
          b top_out_empty_board)
  also have "\<dots> = Some after_one_line"
    by (subst spawn_new_free [where k = KJ and q = "[KL, KO, KS, KT]"])
       (simp_all add: one_line_game_def game_with_def after_one_line_def b
          spawn_free_on_empty_board all_kinds_def)
  finally show ?thesis .
qed

theorem lock_and_clear_scoring_witness:
  "wf_board (board one_line_game) \<and> 0 < h (board one_line_game)
   \<and> cells (current one_line_game) None None None = Some [(3, 19), (4, 19), (5, 19), (6, 19)]
   \<and> in_columns (board one_line_game) [(3, 19), (4, 19), (5, 19), (6, 19)]
   \<and> lock (board one_line_game) (current one_line_game) = Some (Board 10 20, 1)
   \<and> lock_and_clear one_line_game = Some after_one_line
   \<and> board after_one_line = Board 10 20
   \<and> score after_one_line = score one_line_game + award 1 * level one_line_game
   \<and> lines after_one_line = lines one_line_game + 1
   \<and> level after_one_line = 1 + lines after_one_line div 10"
proof -
  have e: "board one_line_game = almost_full_board" "current one_line_game = flat_I_row18"
    by (simp_all add: one_line_game_def game_with_def)
  have "wf_board almost_full_board" by code_simp
  then have h1: "wf_board (board one_line_game)" by (simp add: e)
  have "0 < h almost_full_board" by code_simp
  then have h2: "0 < h (board one_line_game)" by (simp add: e)
  have "cells flat_I_row18 None None None = Some [(3, 19), (4, 19), (5, 19), (6, 19)]"
    by code_simp
  then have h3: "cells (current one_line_game) None None None =
      Some [(3, 19), (4, 19), (5, 19), (6, 19)]" by (simp add: e)
  have "in_columns almost_full_board [(3, 19), (4, 19), (5, 19), (6, 19)]" by code_simp
  then have h4: "in_columns (board one_line_game) [(3, 19), (4, 19), (5, 19), (6, 19)]"
    by (simp add: e)
  from lock_and_clear_scoring [OF h1 h2 h3 h4] obtain b c s' where
    r: "lock (board one_line_game) (current one_line_game) = Some (b, c)"
       "lock_and_clear one_line_game = Some s'" "board s' = b"
       "c \<in> {1, 2, 3, 4} \<longrightarrow> score s' = score one_line_game + award c * level one_line_game
                              \<and> lines s' = lines one_line_game + c"
       "c \<noteq> 0 \<or> level one_line_game = 1 + lines one_line_game div 10
          \<longrightarrow> level s' = 1 + lines s' div 10"
    by blast
  from r(1) lock_one_line have bc: "b = Board 10 20" "c = 1" by simp_all
  from r(2) lock_and_clear_one_line have s': "s' = after_one_line" by simp
  from r(3,4,5) have
    "board after_one_line = Board 10 20
     \<and> score after_one_line = score one_line_game + award 1 * level one_line_game
     \<and> lines after_one_line = lines one_line_game + 1
     \<and> level after_one_line = 1 + lines after_one_line div 10"
    unfolding bc s' by simp
  with h1 h2 h3 h4 lock_one_line lock_and_clear_one_line show ?thesis by blast
qed

section \<open>Claim C8: a hard drop locks the piece where the ghost is\<close>

lemma cells_given_y: "cells (p\<lparr>y := v\<rparr>) (Some a) (Some b) None = cells p (Some a) (Some b) None"
  by (simp add: cells_def)

lemma ghost_loop_indep_y: "ghost_loop b (p\<lparr>y := v\<rparr>) gy = ghost_loop b p gy"
proof (induction b p gy rule: ghost_loop.induct)
  case (1 b p gy)
  show ?case
  proof (cases "cells p (Some (x p)) (Some (gy + 1)) None \<bind> collides b")
    case None
    then show ?thesis
      by (subst ghost_loop.simps, subst (2) ghost_loop.simps) (simp add: cells_given_y)
  next
    case (Some c)
    with 1 show ?thesis
      by (subst ghost_loop.simps, subst (2) ghost_loop.simps) (simp add: cells_given_y)
  qed
qed

lemma same_x: "(p::piece)\<lparr>x := x p, y := v\<rparr> = p\<lparr>y := v\<rparr>"
  by simp

lemma hard_drop_loop_ghost:
  "\<not> game_over s \<Longrightarrow> \<not> paused s \<Longrightarrow>
   hard_drop_loop s d =
     map_option (\<lambda>gy. (s\<lparr>current := (current s)\<lparr>y := gy\<rparr>\<rparr>, d + (gy - y (current s))))
       (ghost_loop (board s) (current s) (y (current s)))"
proof (induction s d rule: hard_drop_loop.induct)
  case (1 s d)
  let ?p = "current s"
  let ?probe = "cells ?p (Some (x ?p)) (Some (y ?p + 1)) None \<bind> collides (board s)"
  let ?s1 = "s\<lparr>current := ?p\<lparr>y := y ?p + 1\<rparr>\<rparr>"
  have tm: "try_move s 0 1 =
      (case ?probe of None \<Rightarrow> None
       | Some c \<Rightarrow> if \<not> c then Some (True, ?s1) else Some (False, s))"
    using "1.prems" by (auto simp: try_move_def Let_def same_x split: option.splits)
  show ?case
  proof (cases ?probe)
    case None
    then show ?thesis
      by (subst hard_drop_loop.simps, subst ghost_loop.simps) (simp add: tm)
  next
    case (Some c)
    show ?thesis
    proof (cases c)
      case True
      with Some show ?thesis
        by (subst hard_drop_loop.simps, subst ghost_loop.simps) (simp add: tm)
    next
      case False
      with Some have tm': "try_move s 0 1 = Some (True, ?s1)" by (simp add: tm)
      have "hard_drop_loop ?s1 (d + 1) =
          map_option (\<lambda>gy. (?s1\<lparr>current := (current ?s1)\<lparr>y := gy\<rparr>\<rparr>, d + 1 + (gy - y (current ?s1))))
            (ghost_loop (board ?s1) (current ?s1) (y (current ?s1)))"
        using "1.prems" by (intro "1.IH" [OF tm']) simp_all
      then have "hard_drop_loop ?s1 (d + 1) =
          map_option (\<lambda>gy. (s\<lparr>current := ?p\<lparr>y := gy\<rparr>\<rparr>, d + (gy - y ?p)))
            (ghost_loop (board s) ?p (y ?p + 1))"
        by (simp add: ghost_loop_indep_y)
      with Some False tm' show ?thesis
        by (subst hard_drop_loop.simps, subst ghost_loop.simps) simp
    qed
  qed
qed

lemma ghost_loop_total:
  assumes "wf_board b" and "0 \<le> rot p" and "rot p < 4"
  shows "\<exists>gy. ghost_loop b p g0 = Some gy \<and> g0 \<le> gy"
  using assms
proof (induction b p g0 rule: ghost_loop.induct)
  case (1 b p gy)
  from cells_total_own [OF "1.prems"(2,3), where xo = "Some (x p)" and yo = "Some (gy + 1)"]
  obtain cs where "cells p (Some (x p)) (Some (gy + 1)) None = Some cs" by blast
  from probe_total [OF "1.prems"(1) this] obtain c where
    c: "cells p (Some (x p)) (Some (gy + 1)) None \<bind> collides b = Some c" by blast
  show ?case
  proof (cases c)
    case True
    with c show ?thesis by (subst ghost_loop.simps) simp
  next
    case False
    with c "1.IH" [OF c] "1.prems" obtain g where
      "ghost_loop b p (gy + 1) = Some g" "gy + 1 \<le> g" by blast
    with c False show ?thesis by (subst ghost_loop.simps) simp
  qed
qed

lemma hard_drop_is_lock_at_ghost:
  assumes "\<not> game_over s" and "\<not> paused s"
    and "ghost_loop (board s) (current s) (y (current s)) = Some gy"
  shows "hard_drop s =
           lock_and_clear (s\<lparr>current := (current s)\<lparr>y := gy\<rparr>,
                             score := score s + 2 * (gy - y (current s))\<rparr>)"
  by (simp add: hard_drop_def hard_drop_loop_ghost [OF assms(1,2)] assms(3))

text \<open>The cells of a piece in another row have the same columns.\<close>

lemma cells_in_row:
  assumes "cells p None None None = Some cs0"
  shows "\<exists>cs. cells p (Some (x p)) (Some gy) None = Some cs \<and> map fst cs = map fst cs0"
  using assms by (auto simp: cells_def Let_def comp_def case_prod_beta)

lemma in_all_columns_fst:
  assumes m: "map fst cs = map fst cs0" and a: "in_all_columns b cs0"
  shows "in_all_columns b cs"
proof -
  from a have "list_all (\<lambda>cx. 0 \<le> cx \<and> cx < w b) (map fst cs0)"
    by (simp add: in_all_columns_def list_all_iff case_prod_beta)
  then have "list_all (\<lambda>cx. 0 \<le> cx \<and> cx < w b) (map fst cs)"
    by (simp only: m)
  then show ?thesis
    by (simp add: in_all_columns_def list_all_iff case_prod_beta)
qed

text \<open>
  Claim C8. For every engine state that is neither paused nor game-over, on a board of the
  constructor's shape with at least one row and with a current piece of a rotation in 0..3
  whose cells lie in the columns of the board (every state the engine reaches is one):
  \<open>ghost_y\<close> returns a row \<open>gy\<close> at or below the piece's row, and \<open>hard_drop\<close> returns a
  state \<open>s'\<close>. With \<open>cs\<close> for the cells of the piece in row \<open>gy\<close>, same column and rotation,
  the grid of \<open>s'\<close> is the grid before the call in which exactly the cells \<open>cs\<close> have been
  written with the piece's kind and the full rows then cleared, and the score of \<open>s'\<close> is the
  score before plus 2 times the number of rows descended, \<open>gy - y\<close>, plus the award for the
  rows that this lock clears times the level. \<open>hard_drop\<close> is \<open>lock_and_clear\<close> applied to
  the state in which the piece stands in row \<open>gy\<close> and the score has grown by
  \<open>2 * (gy - y)\<close>.
\<close>

theorem hard_drop_lands_on_ghost:
  assumes "\<not> game_over s" and "\<not> paused s" and "wf_board (board s)" and "0 < h (board s)"
    and "piece_inv (board s) (current s)"
  shows "\<exists>gy cs s'. ghost_y s = Some gy \<and> y (current s) \<le> gy
           \<and> cells (current s) (Some (x (current s))) (Some gy) None = Some cs
           \<and> hard_drop s = Some s'
           \<and> hard_drop s =
               lock_and_clear (s\<lparr>current := (current s)\<lparr>y := gy\<rparr>,
                                 score := score s + 2 * (gy - y (current s))\<rparr>)
           \<and> grid (board s') =
               remove_and_prepend (w (board s)) (written (board s) (kind (current s)) cs)
           \<and> score s' = score s + 2 * (gy - y (current s))
               + award (int (length (filter is_full
                   (written (board s) (kind (current s)) cs)))) * level s"
proof -
  let ?p = "current s"
  from assms(5) have r: "0 \<le> rot ?p" "rot ?p < 4" by (auto simp: piece_inv_def)
  from assms(5) obtain cs0 where cs0: "cells ?p None None None = Some cs0"
    "in_all_columns (board s) cs0"
    by (auto simp: piece_inv_def split: option.splits)
  from ghost_loop_total [OF assms(3) r] obtain gy where
    gy: "ghost_loop (board s) ?p (y ?p) = Some gy" "y ?p \<le> gy"
    by blast
  let ?s1 = "s\<lparr>current := ?p\<lparr>y := gy\<rparr>, score := score s + 2 * (gy - y ?p)\<rparr>"
  note hd = hard_drop_is_lock_at_ghost [OF assms(1,2) gy(1)]
  from cells_in_row [OF cs0(1), of gy] obtain cs where
    cs: "cells ?p (Some (x ?p)) (Some gy) None = Some cs" "map fst cs = map fst cs0"
    by blast
  from in_all_columns_fst [OF cs(2) cs0(2)] have "in_columns (board s) cs"
    by (auto simp: in_columns_def in_all_columns_def list_all_iff)
  then have cols: "in_columns (board ?s1) cs" by simp
  have c1: "cells (current ?s1) None None None = Some cs"
    using cs(1) by (simp add: cells_def)
  have wf1: "wf_board (board ?s1)" using assms(3) by simp
  let ?W = "written (board s) (kind ?p) cs"
  let ?b = "(board s)\<lparr>grid := remove_and_prepend (w (board s)) ?W\<rparr>"
  have lk: "lock (board ?s1) (current ?s1) = Some (?b, int (length (filter is_full ?W)))"
    using lock_result [OF wf1 c1 cols] by simp
  have "wf_board ?b" by (rule wf_board_locked)
  moreover have "0 < h ?b" using assms(4) by simp
  ultimately obtain s' where s': "lock_and_clear ?s1 = Some s'" "board s' = ?b"
    "score s' = score ?s1 + award (int (length (filter is_full ?W))) * level ?s1"
    using lock_and_clear_result [OF lk] by blast
  from s'(2) have g: "grid (board s') = remove_and_prepend (w (board s)) ?W" by simp
  from s'(3) have sc: "score s' = score s + 2 * (gy - y ?p)
      + award (int (length (filter is_full ?W))) * level s" by simp
  from gy have "ghost_y s = Some gy" by (simp add: ghost_y_def)
  with gy(2) cs(1) hd s'(1) g sc show ?thesis by (intro exI [of _ gy] exI [of _ cs] exI [of _ s']) simp
qed

text \<open>
  The theorem at a concrete input: the T piece at the top of the empty board has its ghost
  in row 18; the hard drop returns a state with a score of 2 * 18, in which the four cells
  of the T piece in row 18 are written and the cell above them is empty.
\<close>

lemma ghost_of_fresh_T: "ghost_loop (Board GRID_W GRID_H) (Piece KT) 0 = Some 18"
  by code_simp

lemma dropped_T_facts:
  "cells (Piece KT) (Some 3) (Some 18) None = Some [(4, 18), (3, 19), (4, 19), (5, 19)]"
  "filter is_full (written (Board GRID_W GRID_H) KT [(4, 18), (3, 19), (4, 19), (5, 19)]) = []"
  "map (\<lambda>(cy, cx). grid_at (remove_and_prepend GRID_W
          (written (Board GRID_W GRID_H) KT [(4, 18), (3, 19), (4, 19), (5, 19)])) cy cx)
       [(18, 4), (19, 3), (19, 4), (19, 5), (17, 4), (18, 3)] =
     [Some (Some KT), Some (Some KT), Some (Some KT), Some (Some KT), Some None, Some None]"
  by code_simp+

theorem hard_drop_lands_on_ghost_witness:
  "\<not> game_over fresh_T_game \<and> \<not> paused fresh_T_game \<and> wf_board (board fresh_T_game)
   \<and> 0 < h (board fresh_T_game) \<and> piece_inv (board fresh_T_game) (current fresh_T_game)
   \<and> ghost_y fresh_T_game = Some 18
   \<and> (\<exists>s'. hard_drop fresh_T_game = Some s'
          \<and> hard_drop fresh_T_game =
               lock_and_clear (fresh_T_game\<lparr>current := (current fresh_T_game)\<lparr>y := 18\<rparr>,
                   score := score fresh_T_game + 2 * (18 - y (current fresh_T_game))\<rparr>)
          \<and> score s' = 36
          \<and> map (\<lambda>(cy, cx). grid_at (grid (board s')) cy cx)
                [(18, 4), (19, 3), (19, 4), (19, 5), (17, 4), (18, 3)] =
              [Some (Some KT), Some (Some KT), Some (Some KT), Some (Some KT),
               Some None, Some None])"
proof -
  have e: "board fresh_T_game = Board GRID_W GRID_H" "current fresh_T_game = Piece KT"
    "score fresh_T_game = 0" "level fresh_T_game = 1"
    by (simp_all add: fresh_T_game_def game_with_def)
  have p: "x (Piece KT) = 3" "y (Piece KT) = 0" "kind (Piece KT) = KT"
    by (simp_all add: Piece_def)
  have d: "w (Board GRID_W GRID_H) = GRID_W" "h (Board GRID_W GRID_H) = GRID_H"
    by (simp_all add: Board_def)
  have h1: "\<not> game_over fresh_T_game" and h2: "\<not> paused fresh_T_game"
    by (simp_all add: fresh_T_game_def game_with_def)
  have h3: "wf_board (board fresh_T_game)"
    by (simp add: e wf_board_Board)
  have h4: "0 < h (board fresh_T_game)"
    unfolding e d by (simp add: GRID_H_def)
  have h5: "piece_inv (board fresh_T_game) (current fresh_T_game)"
    by (simp add: e d piece_inv_spawn)
  have g: "ghost_y fresh_T_game = Some 18"
    using ghost_of_fresh_T by (simp add: ghost_y_def e p)
  from hard_drop_lands_on_ghost [OF h1 h2 h3 h4 h5] obtain gy cs s' where
    r: "ghost_y fresh_T_game = Some gy"
       "cells (current fresh_T_game) (Some (x (current fresh_T_game))) (Some gy) None = Some cs"
       "hard_drop fresh_T_game = Some s'"
       "hard_drop fresh_T_game =
          lock_and_clear (fresh_T_game\<lparr>current := (current fresh_T_game)\<lparr>y := gy\<rparr>,
              score := score fresh_T_game + 2 * (gy - y (current fresh_T_game))\<rparr>)"
       "grid (board s') = remove_and_prepend (w (board fresh_T_game))
            (written (board fresh_T_game) (kind (current fresh_T_game)) cs)"
       "score s' = score fresh_T_game + 2 * (gy - y (current fresh_T_game))
            + award (int (length (filter is_full
                (written (board fresh_T_game) (kind (current fresh_T_game)) cs))))
              * level fresh_T_game"
    by blast
  from r(1) g have gy: "gy = 18" by simp
  from r(2) have cs: "cs = [(4, 18), (3, 19), (4, 19), (5, 19)]"
    unfolding gy e p dropped_T_facts(1) by simp
  from r(6) have sc: "score s' = 36"
    unfolding gy cs e p dropped_T_facts(2) by (simp add: award_def)
  from r(5) have gr: "grid (board s') = remove_and_prepend GRID_W
      (written (Board GRID_W GRID_H) KT [(4, 18), (3, 19), (4, 19), (5, 19)])"
    unfolding cs e p d .
  have cl: "map (\<lambda>(cy, cx). grid_at (grid (board s')) cy cx)
          [(18, 4), (19, 3), (19, 4), (19, 5), (17, 4), (18, 3)] =
        [Some (Some KT), Some (Some KT), Some (Some KT), Some (Some KT), Some None, Some None]"
    unfolding gr by (rule dropped_T_facts(3))
  note hd = r(4) [unfolded gy]
  have
    "\<exists>s'. hard_drop fresh_T_game = Some s'
          \<and> hard_drop fresh_T_game =
               lock_and_clear (fresh_T_game\<lparr>current := (current fresh_T_game)\<lparr>y := 18\<rparr>,
                   score := score fresh_T_game + 2 * (18 - y (current fresh_T_game))\<rparr>)
          \<and> score s' = 36
          \<and> map (\<lambda>(cy, cx). grid_at (grid (board s')) cy cx)
                [(18, 4), (19, 3), (19, 4), (19, 5), (17, 4), (18, 3)] =
              [Some (Some KT), Some (Some KT), Some (Some KT), Some (Some KT),
               Some None, Some None]"
    by (rule exI [of _ s'], intro conjI) (rule r(3), rule hd, rule sc, rule cl)
  with h1 h2 h3 h4 h5 g show ?thesis by (intro conjI)
qed

section \<open>Claim C9: rotation takes the first kick that fits, or changes nothing\<close>

lemma rotate_loop_find:
  assumes "wf_board (board s)" and "0 \<le> r" and "r < 4"
  shows "rotate_loop s r cands =
     Some (case find (fits s r) cands of None \<Rightarrow> s | Some off \<Rightarrow> turned s r off)"
proof (induction cands)
  case Nil
  then show ?case by simp
next
  case (Cons c cands)
  obtain dx dy where c: "c = (dx, dy)" by (cases c)
  from cells_total [OF assms(2,3)] obtain cs where
    "cells (current s) (Some (x (current s) + dx)) (Some (y (current s) + dy)) (Some r) = Some cs"
    by blast
  from probe_total [OF assms(1) this] obtain col where
    col: "cells (current s) (Some (x (current s) + dx)) (Some (y (current s) + dy)) (Some r)
            \<bind> collides (board s) = Some col" by blast
  show ?case
  proof (cases col)
    case True
    with col c Cons show ?thesis by (simp add: fits_def)
  next
    case False
    with col c show ?thesis by (simp add: fits_def turned_def)
  qed
qed

lemma kicks_defined:
  assumes "r \<in> {0, 1, 2, 3}" and "d = 1 \<or> d = - 1"
  shows "\<exists>c. KICKS_I (r, (r + d) mod 4) = Some c"
    and "\<exists>c. KICKS_JLSTZ (r, (r + d) mod 4) = Some c"
proof -
  from assms have cases: "(r = 0 \<or> r = 1 \<or> r = 2 \<or> r = 3) \<and> (d = 1 \<or> d = - 1)" by simp
  show "\<exists>c. KICKS_I (r, (r + d) mod 4) = Some c"
    using cases by (elim conjE disjE; simp add: KICKS_I_def)
  show "\<exists>c. KICKS_JLSTZ (r, (r + d) mod 4) = Some c"
    using cases by (elim conjE disjE; simp add: KICKS_JLSTZ_def)
qed

text \<open>
  Claim C9. For every engine state that is neither paused nor game-over (on a board of the
  constructor's shape, with a rotation in 0..3) and every direction +1 or -1, the kick
  table (the I table for the I piece, the shared table otherwise) has a candidate list for
  (current rotation, new rotation), and \<open>rotate\<close> returns the state \<open>turned\<close> by the first
  candidate that \<open>fits\<close> at the new rotation: rotation and position change together and
  nothing else changes. When no candidate fits it returns the state as it was.
\<close>

theorem rotate_first_fit:
  assumes "\<not> game_over s" and "\<not> paused s" and dir: "dir = 1 \<or> dir = - 1"
    and wf: "wf_board (board s)" and r: "rot (current s) \<in> {0, 1, 2, 3}"
  shows "\<exists>candidates.
           (if kind (current s) = KI then KICKS_I else KICKS_JLSTZ)
              (rot (current s), (rot (current s) + dir) mod 4) = Some candidates
         \<and> rotate s dir =
             Some (case find (fits s ((rot (current s) + dir) mod 4)) candidates of
                     None \<Rightarrow> s
                   | Some off \<Rightarrow> turned s ((rot (current s) + dir) mod 4) off)"
proof -
  let ?new = "(rot (current s) + dir) mod 4"
  from kicks_defined [OF r dir] obtain cands where
    cands: "(if kind (current s) = KI then KICKS_I else KICKS_JLSTZ) (rot (current s), ?new) = Some cands"
    by (cases "kind (current s) = KI") auto
  have step: "(rot (current s) + (if dir > 0 then 1 else - 1)) mod 4 = ?new"
    using dir by auto
  have "rotate s dir = rotate_loop s ?new cands"
    using assms(1,2) cands step by (simp add: rotate_def Let_def)
  also have "\<dots> = Some (case find (fits s ?new) cands of None \<Rightarrow> s | Some off \<Rightarrow> turned s ?new off)"
    by (intro rotate_loop_find wf) simp_all
  finally show ?thesis using cands by blast
qed

text \<open>
  The theorem at a concrete input: a T piece at the spawn position of the empty board,
  turned clockwise, takes the first candidate, the offset (0, 0).
\<close>

theorem rotate_first_fit_witness:
  "\<not> game_over fresh_T_game \<and> \<not> paused fresh_T_game \<and> ((1::int) = 1 \<or> (1::int) = - 1)
   \<and> wf_board (board fresh_T_game) \<and> rot (current fresh_T_game) \<in> {0, 1, 2, 3}
   \<and> rotate fresh_T_game 1 = Some (turned fresh_T_game 1 (0, 0))"
proof -
  have h1: "\<not> game_over fresh_T_game" and h2: "\<not> paused fresh_T_game"
    by (simp_all add: fresh_T_game_def game_with_def)
  have h3: "(1::int) = 1 \<or> (1::int) = - 1" by simp
  have h4: "wf_board (board fresh_T_game)"
    by (simp add: fresh_T_game_def game_with_def wf_board_Board)
  have h5: "rot (current fresh_T_game) \<in> {0, 1, 2, 3}"
    by (simp add: fresh_T_game_def game_with_def Piece_def)
  have k: "kind (current fresh_T_game) = KT" "rot (current fresh_T_game) = 0"
    by (simp_all add: fresh_T_game_def game_with_def Piece_def)
  have free: "cells (Piece KT) (Some 3) (Some 0) (Some 1) \<bind> collides (Board GRID_W GRID_H) = Some False"
    by code_simp
  have f: "fits fresh_T_game 1 (0, 0)"
    using free by (simp add: fits_def fresh_T_game_def game_with_def Piece_def)
  have "\<exists>candidates. KICKS_JLSTZ (0, 1) = Some candidates
          \<and> rotate fresh_T_game 1 =
             Some (case find (fits fresh_T_game 1) candidates of
                     None \<Rightarrow> fresh_T_game
                   | Some off \<Rightarrow> turned fresh_T_game 1 off)"
    using rotate_first_fit [OF h1 h2 h3 h4 h5] unfolding k by (simp cong: option.case_cong)
  then obtain candidates where
    c: "KICKS_JLSTZ (0, 1) = Some candidates"
    and r: "rotate fresh_T_game 1 =
             Some (case find (fits fresh_T_game 1) candidates of
                     None \<Rightarrow> fresh_T_game
                   | Some off \<Rightarrow> turned fresh_T_game 1 off)"
    by blast
  from c have "candidates = [(0,0), (-1,0), (-1,-1), (0,2), (-1,2)]"
    by (simp add: KICKS_JLSTZ_def)
  with r f have "rotate fresh_T_game 1 = Some (turned fresh_T_game 1 (0, 0))" by simp
  with h1 h2 h3 h4 h5 show ?thesis by blast
qed

section \<open>Claim C10: the constructor draws seven kinds and drops the sixth\<close>

text \<open>
  Claim C10, as amended. For every bag \<open>g\<close>, the constructor returns an engine whose bag is
  \<open>g\<close> after seven draws: five fill the queue, the sixth makes a first current piece, and
  the \<open>spawn_new\<close> that ends the constructor replaces that piece by the head of the queue
  and appends the seventh draw. So the current piece has the kind of draw 1, the queue
  holds the draws 2, 3, 4, 5 and 7, and the sixth draw is in neither. Every \<open>spawn_new\<close>
  makes the head of \<open>upcoming\<close> (the queue followed by the bag) the current kind and
  leaves its tail, so the kinds that spawn are the draws 1 to 5, then 7, 8 and so on. With
  a bag whose shuffle moves the first kind to the end, the first seven of them have a
  repetition.
\<close>

theorem constructor_drops_sixth_draw:
  "(\<exists>s. Game g = Some s \<and> bag s = sdrop 7 g \<and> kind (current s) = g !! 0
        \<and> next_queue s = [g !! 1, g !! 2, g !! 3, g !! 4, g !! 6]
        \<and> kind (current s) ## upcoming s = stake 5 g @- sdrop 6 g)
   \<and> (\<forall>s s'. spawn_new s = Some s' \<longrightarrow>
          kind (current s') = shd (upcoming s) \<and> upcoming s' = stl (upcoming s))
   \<and> \<not> distinct (stake 7 (stake 5 turned_bag @- sdrop 6 turned_bag))"
proof -
  let ?s = "\<lparr>board = Board GRID_W GRID_H, bag = sdrop 7 g,
      next_queue = [g !! 1, g !! 2, g !! 3, g !! 4, g !! 6], current = Piece (g !! 0),
      hold = None, hold_used = False, score = 0, level = 1, lines = 0,
      drop_cooldown = 0.5, gravity_timer = 0, game_over = False, paused = False\<rparr>"
  have "stake 5 g @- sdrop 6 g = g !! 0 ## ([g !! 1, g !! 2, g !! 3, g !! 4, g !! 6] @- sdrop 7 g)"
    by (simp add: eval_nat_numeral)
  then have "kind (current ?s) ## upcoming ?s = stake 5 g @- sdrop 6 g"
    by (simp add: upcoming_def Piece_def)
  with Game_result [of g] have
    a: "\<exists>s. Game g = Some s \<and> bag s = sdrop 7 g \<and> kind (current s) = g !! 0
        \<and> next_queue s = [g !! 1, g !! 2, g !! 3, g !! 4, g !! 6]
        \<and> kind (current s) ## upcoming s = stake 5 g @- sdrop 6 g"
    by (simp add: Piece_def)
  have c: "\<not> distinct (stake 7 (stake 5 turned_bag @- sdrop 6 turned_bag))"
    by (simp add: first_draws_turned)
  from a c spawn_new_upcoming show ?thesis by blast
qed

text \<open>
  The theorem at a concrete input: the spawn that follows the T piece of \<open>fresh_T_game\<close>
  takes the head of the queue.
\<close>

lemma spawn_after_fresh_T: "spawn_new fresh_T_game = Some after_fresh_T"
  by (subst spawn_new_free [where k = KJ and q = "[KL, KO, KS, KT]"])
     (simp_all add: fresh_T_game_def game_with_def after_fresh_T_def
        spawn_free_on_empty_board all_kinds_def)

theorem constructor_drops_sixth_draw_witness:
  "spawn_new fresh_T_game = Some after_fresh_T
   \<and> kind (current after_fresh_T) = shd (upcoming fresh_T_game)
   \<and> upcoming after_fresh_T = stl (upcoming fresh_T_game)"
  using constructor_drops_sixth_draw [of turned_bag] spawn_after_fresh_T by blast

text \<open>
  Claim C10 as it is written, with exactly 6 kinds drawn during construction, fails: of
  the bag that yields J, L, O, S, T, Z, I, L, ... the constructor leaves the seventh kind,
  I, at the end of the queue, and the next kind the bag yields is the eighth, L.
\<close>

theorem constructor_six_draws_counterexample:
  "stake 8 turned_bag = [KJ, KL, KO, KS, KT, KZ, KI, KL]
   \<and> map_option next_queue (Game turned_bag) = Some [KL, KO, KS, KT, KI]
   \<and> map_option (shd \<circ> bag) (Game turned_bag) = Some KL"
proof -
  have "turned_bag !! 1 = KL" "turned_bag !! 2 = KO" "turned_bag !! 3 = KS"
    "turned_bag !! 4 = KT" "turned_bag !! 6 = KI" "shd (sdrop 7 turned_bag) = KL"
    by (simp_all add: turned_bag_def bag_generator_def turn_shuffle_def all_kinds_def
          eval_nat_numeral)
  then show ?thesis by (simp add: Game_result first_draws_turned)
qed

end
